theory Spec2Isabelle
  imports Main
begin

section \<open>Data model\<close>

text \<open>
  A JavaScript string is a sequence of UTF-16 code units. The model uses Isabelle's
  \<open>string\<close> (a list of \<open>char\<close>), so it covers the code units 0..255 (Latin-1), which
  contain every character the marker grammar can accept. A JavaScript \<open>number\<close> is a
  binary64 floating-point value; see the section on numbers below.
\<close>

datatype ListType = Alphabetical | Roman | NestedAlphabetical | Numbered | Unordered

datatype ListSeparator = Dot | Parenthesis | Parentheses

record ParsedListLine =
  type :: ListType
  indentation :: string
  marker :: string
  separator :: ListSeparator
  content :: string

datatype NestedMode = ModeDisabled | ModeBijective | ModeRepeated

datatype CaseStyle = CaseUpper | CaseLower | CaseBoth | CaseNone

record MoreOrderedListsSettings =
  enableAlphabeticalLists :: bool
  enableRomanLists :: bool
  nestedAlphabeticalMode :: NestedMode
  caseStyle :: CaseStyle
  enableParentheses :: bool
  enableJuraOrdering :: bool

definition DEFAULT_SETTINGS :: MoreOrderedListsSettings where
  "DEFAULT_SETTINGS = \<lparr> enableAlphabeticalLists = True, enableRomanLists = True,
     nestedAlphabeticalMode = ModeBijective, caseStyle = CaseBoth,
     enableParentheses = True, enableJuraOrdering = False \<rparr>"

definition hasLowercase :: "MoreOrderedListsSettings \<Rightarrow> bool" where
  "hasLowercase s = (caseStyle s = CaseLower \<or> caseStyle s = CaseBoth)"

definition hasUppercase :: "MoreOrderedListsSettings \<Rightarrow> bool" where
  "hasUppercase s = (caseStyle s = CaseUpper \<or> caseStyle s = CaseBoth)"

text \<open>Every \<open>throw new Error(...)\<close> of the source is one constructor. \<open>TypeError\<close> is the
  runtime's own error on reading a property of \<open>undefined\<close>, \<open>InvalidStringLength\<close> the
  runtime's \<open>RangeError\<close> when a string grows beyond the maximal length, and
  \<open>AlphabetExhausted\<close> the failure of \<open>correctNextMarker\<close>, whose source is not available
  (see there).\<close>

datatype error =
    AlphabeticalOutOfBounds
  | AlphabeticalEmpty
  | RepeatedLettersMixed
  | RomanInvalidSymbol
  | RomanEmpty
  | AlphabeticalValueOutOfRange
  | RepeatedLettersTooLarge
  | RomanValueOutOfRange
  | NoIndentationToDecrease
  | UnknownListType
  | AlphabetExhausted
  | NoContextOrParent
  | TypeError
  | InvalidStringLength

subsection \<open>Strings\<close>

text \<open>\<open>String.prototype.toLowerCase\<close> on the code units 0..255: it changes the ASCII
  capital letters and the Latin-1 capital letters (0xC0..0xDE without the multiplication
  sign 0xD7).\<close>

definition toLowerCase_char :: "char \<Rightarrow> char" where
  "toLowerCase_char c =
     (let n = (of_char c :: nat)
      in if (65 \<le> n \<and> n \<le> 90) \<or> (192 \<le> n \<and> n \<le> 222 \<and> n \<noteq> 215)
         then char_of (n + 32) else c)"

definition toLowerCase :: "string \<Rightarrow> string" where
  "toLowerCase s = map toLowerCase_char s"

text \<open>\<open>s.charCodeAt(i) - 96\<close>: the letter position, \<open>'a' = 1\<close>.\<close>

definition letterCode :: "char \<Rightarrow> int" where
  "letterCode c = int (of_char c) - 96"

text \<open>\<open>String.fromCharCode(96 + k)\<close>.\<close>

definition fromLetterCode :: "int \<Rightarrow> char" where
  "fromLetterCode k = char_of (nat (96 + k))"

section \<open>Numbers\<close>

text \<open>
  Every number of the codecs is an integer, an infinity or \<open>NaN\<close>; \<open>Num i\<close> is the binary64
  value equal to the integer \<open>i\<close> (the two zeros are not told apart). The result of an
  arithmetic operation is the exact result rounded to the nearest binary64 value, ties to
  the even significand: an integer of more than 53 bits keeps its 53 leading bits, and a
  result of magnitude $2^{1024} - 2^{970}$ or more is an infinity.
\<close>

datatype number = Num int | NaN | Infinity | NegInfinity

text \<open>The number of bits of a positive integer.\<close>

function bitLength :: "int \<Rightarrow> nat" where
  "bitLength n = (if n \<le> 0 then 0 else Suc (bitLength (n div 2)))"
  by pat_completeness auto
termination
  by (relation "measure nat") auto

declare bitLength.simps [simp del]

text \<open>The integer nearest to \<open>n / d\<close> for \<open>d > 0\<close>, a tie going to the even one.\<close>

definition roundHalfEven :: "int \<Rightarrow> int \<Rightarrow> int" where
  "roundHalfEven n d =
     (let q = n div d; r = n mod d
      in if 2 * r < d then q else if d < 2 * r then q + 1 else if even q then q else q + 1)"

text \<open>The binary64 value nearest to the integer \<open>x\<close>, before the test for overflow: with
  \<open>e\<close> bits beyond the 53 of the significand, \<open>x\<close> is rounded to a multiple of $2^e$.\<close>

definition roundToDouble :: "int \<Rightarrow> int" where
  "roundToDouble x =
     (let e = bitLength \<bar>x\<bar> - 53;
          m = roundHalfEven \<bar>x\<bar> (2 ^ e) * 2 ^ e
      in if x < 0 then - m else m)"

definition toNumber :: "int \<Rightarrow> number" where
  "toNumber x =
     (let y = roundToDouble x
      in if 2 ^ 1024 \<le> y then Infinity else if y \<le> - (2 ^ 1024) then NegInfinity else Num y)"

text \<open>\<open>Math.floor(remaining / 26)\<close> for an integer \<open>remaining \<ge> 0\<close>. The quotient is rounded
  to binary64 before \<open>Math.floor\<close> sees it: with \<open>b\<close> the number of bits of its integer
  part, it is rounded to a multiple of $2^{b - 53}$, that is to \<open>s = 53 - b\<close> binary places
  when \<open>b \<le> 53\<close> and to a multiple of $2^e$ with \<open>e = b - 53\<close> otherwise. Below 26 the
  quotient is less than 1 and its floor is 0.\<close>

definition floorDiv26 :: "int \<Rightarrow> int" where
  "floorDiv26 r =
     (if r < 26 then 0
      else let b = bitLength (r div 26); s = 53 - b; e = b - 53
           in (roundHalfEven (r * 2 ^ s) (26 * 2 ^ e) * 2 ^ e) div 2 ^ s)"

text \<open>\<open>Math.pow(base, power)\<close> for integers \<open>base\<close> and \<open>power \<ge> 0\<close>, taken as correctly
  rounded (it is exact whenever the power is a binary64 value, as $26^k$ is for
  \<open>k \<le> 14\<close>); the product \<open>c * p\<close> of an integer and a number; the sum of two numbers.\<close>

definition Math_pow :: "int \<Rightarrow> nat \<Rightarrow> number" where
  "Math_pow b k = toNumber (b ^ k)"

definition timesNumber :: "int \<Rightarrow> number \<Rightarrow> number" where
  "timesNumber c p =
     (case p of
        Num x \<Rightarrow> toNumber (c * x)
      | NaN \<Rightarrow> NaN
      | Infinity \<Rightarrow> if 0 < c then Infinity else if c < 0 then NegInfinity else NaN
      | NegInfinity \<Rightarrow> if 0 < c then NegInfinity else if c < 0 then Infinity else NaN)"

definition plusNumber :: "number \<Rightarrow> number \<Rightarrow> number" where
  "plusNumber a b =
     (case (a, b) of
        (Num x, Num y) \<Rightarrow> toNumber (x + y)
      | (NaN, _) \<Rightarrow> NaN
      | (_, NaN) \<Rightarrow> NaN
      | (Infinity, NegInfinity) \<Rightarrow> NaN
      | (NegInfinity, Infinity) \<Rightarrow> NaN
      | (Infinity, _) \<Rightarrow> Infinity
      | (_, Infinity) \<Rightarrow> Infinity
      | (NegInfinity, _) \<Rightarrow> NegInfinity
      | (_, NegInfinity) \<Rightarrow> NegInfinity)"

section \<open>Numeral codecs\<close>

subsection \<open>Bijective base-26 (\<open>ParsedListLine.calculateBijectiveBase26Value\<close>)\<close>

text \<open>The \<open>for\<close> loop over the positions of the lower-cased marker; the exponent
  \<open>length - 1 - i\<close> is the number of characters still to the right. \<open>Math.pow\<close>, the product
  and \<open>value += contribution\<close> are binary64 operations.\<close>

fun base26_loop :: "string \<Rightarrow> number \<Rightarrow> error + number" where
  "base26_loop [] val = Inr val"
| "base26_loop (c # cs) val =
     (let charCode = letterCode c
      in if charCode < 1 \<or> charCode > 26 then Inl AlphabeticalOutOfBounds
         else let power = length cs;
                  contribution = timesNumber charCode (Math_pow 26 power)
              in base26_loop cs (plusNumber val contribution))"

definition calculateBijectiveBase26Value :: "string \<Rightarrow> error + number" where
  "calculateBijectiveBase26Value mk =
     (case base26_loop (toLowerCase mk) (Num 0) of
        Inl e \<Rightarrow> Inl e
      | Inr val \<Rightarrow> if val = Num 0 then Inl AlphabeticalEmpty else Inr val)"

subsection \<open>Repeated letters (\<open>ParsedListLine.calculateRepeatedLettersValue\<close>)\<close>

text \<open>\<open>for (let len = 1; len < lowerMarker.length; len++) baseValue += 26\<close>: both branches
  of the source's \<open>if (len === 1)\<close> add 26.\<close>

definition repeatedBaseValue :: "nat \<Rightarrow> int" where
  "repeatedBaseValue n = fold (\<lambda>len baseValue. baseValue + 26) [1..<n] 0"

definition calculateRepeatedLettersValue :: "string \<Rightarrow> error + int" where
  "calculateRepeatedLettersValue mk =
     (case toLowerCase mk of
        [] \<Rightarrow> Inl TypeError
      | firstChar # rest \<Rightarrow>
          if \<not> list_all (\<lambda>c. c = firstChar) rest then Inl RepeatedLettersMixed
          else let charCode = letterCode firstChar
               in if charCode < 1 \<or> charCode > 26 then Inl AlphabeticalOutOfBounds
                  else Inr (repeatedBaseValue (length (firstChar # rest)) + charCode))"

subsection \<open>Roman numerals (\<open>ParsedListLine.calculateRomanValue\<close>)\<close>

text \<open>\<open>romanMap[roman[i]]\<close>: \<open>undefined\<close> for any other character.\<close>

definition romanMap :: "char \<Rightarrow> int option" where
  "romanMap c =
     (if c = CHR ''i'' then Some 1 else if c = CHR ''v'' then Some 5
      else if c = CHR ''x'' then Some 10 else if c = CHR ''l'' then Some 50
      else if c = CHR ''c'' then Some 100 else if c = CHR ''d'' then Some 500
      else if c = CHR ''m'' then Some 1000 else None)"

text \<open>The loop of \<open>calculateRomanValue\<close> runs from the last character to the first, so
  \<open>roman_loop\<close> takes the reversed string; the state is \<open>(value, prevValue)\<close>.\<close>

fun roman_loop :: "string \<Rightarrow> int \<Rightarrow> int \<Rightarrow> error + int" where
  "roman_loop [] val prevValue = Inr val"
| "roman_loop (c # cs) val prevValue =
     (case romanMap c of
        None \<Rightarrow> Inl RomanInvalidSymbol
      | Some currentValue \<Rightarrow>
          roman_loop cs (if currentValue < prevValue then val - currentValue
                         else val + currentValue) currentValue)"

definition calculateRomanValue :: "string \<Rightarrow> error + int" where
  "calculateRomanValue mk =
     (case roman_loop (rev (toLowerCase mk)) 0 0 of
        Inl e \<Rightarrow> Inl e
      | Inr val \<Rightarrow> if val = 0 then Inl RomanEmpty else Inr val)"

subsection \<open>Generation (\<open>Parser.generate...Marker\<close>)\<close>

text \<open>The \<open>while (remaining > 0)\<close> loop of \<open>generateStandardAlphabeticalMarker\<close> for a
  finite \<open>value\<close>: \<open>remaining--\<close> rounds \<open>remaining - 1\<close> to binary64, \<open>remaining % 26\<close> is
  exact, and \<open>Math.floor(remaining / 26)\<close> is \<open>floorDiv26\<close>. The loop ends for every
  argument, although from $2^{54}$ on \<open>remaining--\<close> leaves \<open>remaining\<close> as it is.\<close>

function standard_loop :: "int \<Rightarrow> string \<Rightarrow> string" where
  "standard_loop remaining result =
     (if remaining > 0
      then let r = roundToDouble (remaining - 1);
               charCode = r mod 26 + 1
           in standard_loop (floorDiv26 r) (fromLetterCode charCode # result)
      else result)"
  by pat_completeness auto
termination
proof (relation "measure (\<lambda>(remaining, result). nat remaining)")
  show "wf (measure (\<lambda>(remaining, result). nat remaining))" by simp
next
  fix remaining :: int and result :: string and r charCode
  assume pos: "0 < remaining" and r: "r = roundToDouble (remaining - 1)"
  have pow: "(2::int) ^ bitLength n \<le> 2 * n" if "0 < n" for n
    using that
  proof (induction n rule: bitLength.induct)
    case (1 n)
    show ?case
    proof (cases "n div 2 \<le> 0")
      case True
      then have "bitLength (n div 2) = 0" by (subst bitLength.simps) simp
      with 1(2) have "bitLength n = 1" by (subst bitLength.simps) simp
      with 1(2) show ?thesis by simp
    next
      case False
      then have "(2::int) ^ bitLength (n div 2) \<le> 2 * (n div 2)"
        using 1(1) 1(2) by simp
      also have "\<dots> \<le> n" by simp
      finally have "(2::int) * 2 ^ bitLength (n div 2) \<le> 2 * n" by simp
      moreover have "bitLength n = Suc (bitLength (n div 2))"
        using 1(2) by (subst bitLength.simps) simp
      ultimately show ?thesis by simp
    qed
  qed
  have small: "E \<le> n" if "0 < n" and "bitLength n = e + 53" and "E = 2 ^ e" for n E :: int and e
  proof -
    have "(2::int) ^ (e + 53) = E * 2 ^ 53" by (simp add: that(3) power_add)
    with pow[OF that(1)] have "E * 2 ^ 53 \<le> 2 * n" by (simp add: that(2))
    moreover have "E * 2 \<le> E * 2 ^ 53" by (intro mult_left_mono) (simp_all add: that(3))
    ultimately show ?thesis by simp
  qed
  have rnd: "2 * (d * roundHalfEven n d) \<le> 2 * n + d \<and> 2 * n - d \<le> 2 * (d * roundHalfEven n d)"
    if "0 < d" for n d
  proof -
    define q where "q = n div d"
    define t where "t = n mod d"
    have n: "n = d * q + t" by (simp add: q_def t_def)
    have t: "0 \<le> t" "t < d" using that by (simp_all add: t_def)
    have c: "roundHalfEven n d = q \<and> 2 * t \<le> d \<or> roundHalfEven n d = q + 1 \<and> d \<le> 2 * t"
      by (auto simp: roundHalfEven_def Let_def q_def t_def)
    have e: "d * (q + 1) = d * q + d" by (simp add: algebra_simps)
    from c show ?thesis unfolding n using t by (auto simp: e)
  qed
  have dbl: "0 \<le> roundToDouble y \<and> roundToDouble y \<le> 2 * y" if "0 \<le> y" for y
  proof (cases "bitLength y \<le> 53")
    case True
    then have "bitLength y - 53 = 0" by simp
    with that show ?thesis by (simp add: roundToDouble_def roundHalfEven_def)
  next
    case False
    define e where "e = bitLength y - 53"
    define E :: int where "E = 2 ^ e"
    define M where "M = roundHalfEven y E"
    from False have b: "bitLength y = e + 53" by (simp add: e_def)
    have y: "0 < y"
    proof (rule ccontr)
      assume "\<not> 0 < y"
      then have "bitLength y = 0" by (subst bitLength.simps) simp
      with False show False by simp
    qed
    have D: "0 < E" by (simp add: E_def)
    from rnd[OF D, of y]
    have u: "2 * (E * M) \<le> 2 * y + E" and l: "2 * y - E \<le> 2 * (E * M)"
      by (simp_all add: M_def)
    have Ey: "E \<le> y" using y b E_def by (rule small)
    have rd: "roundToDouble y = M * E"
      using y by (simp add: roundToDouble_def e_def[symmetric] M_def E_def)
    have "0 \<le> E * M" using l Ey y by linarith
    moreover have "E * M \<le> 2 * y" using u Ey y by linarith
    ultimately show ?thesis by (simp add: rd mult.commute)
  qed
  have quot: "0 \<le> floorDiv26 z \<and> 13 * floorDiv26 z \<le> z" if "0 \<le> z" for z
  proof (cases "z < 26")
    case True
    with that show ?thesis by (simp add: floorDiv26_def)
  next
    case False
    define q where "q = z div 26"
    define b where "b = bitLength q"
    have q: "1 \<le> q" "26 * q \<le> z" using False by (simp_all add: q_def)
    show ?thesis
    proof (cases "b \<le> 53")
      case True
      define s where "s = 53 - b"
      define S :: int where "S = 2 ^ s"
      define m where "m = roundHalfEven (z * S) 26"
      define f where "f = m div S"
      have S: "1 \<le> S" by (simp add: S_def)
      have fl: "floorDiv26 z = f"
        using False True by (simp add: floorDiv26_def Let_def q_def[symmetric] b_def[symmetric]
            s_def[symmetric] S_def[symmetric] m_def f_def)
      from rnd[of 26 "z * S"]
      have u: "52 * m \<le> 2 * (z * S) + 26" and l: "2 * (z * S) - 26 \<le> 52 * m"
        by (simp_all add: m_def)
      have zS: "26 * S \<le> z * S" using False S by (intro mult_right_mono) simp_all
      have m0: "0 \<le> m" using l zS S by linarith
      have f0: "0 \<le> f" using m0 S by (simp add: f_def pos_imp_zdiv_nonneg_iff)
      have fS: "f * S \<le> m"
      proof -
        have "m div S * S + m mod S = m" by simp
        moreover have "0 \<le> m mod S" using S by simp
        ultimately show ?thesis unfolding f_def by linarith
      qed
      have "52 * (f * S) \<le> 2 * (z * S) + 26 * S" using u fS S by linarith
      then have "(52 * f) * S \<le> (2 * z + 26) * S" by (simp add: algebra_simps)
      then have "52 * f \<le> 2 * z + 26" using S by (auto simp only: mult_le_cancel_right)
      with False have "13 * f \<le> z" by simp
      with f0 fl show ?thesis by simp
    next
      case False2: False
      define e where "e = b - 53"
      define E :: int where "E = 2 ^ e"
      define m where "m = roundHalfEven z (26 * E)"
      have be: "bitLength q = e + 53" using False2 by (simp add: e_def b_def)
      have D: "0 < E" by (simp add: E_def)
      have fl: "floorDiv26 z = m * E"
        using False False2 by (simp add: floorDiv26_def Let_def q_def[symmetric] b_def[symmetric]
            e_def[symmetric] E_def[symmetric] m_def)
      from rnd[of "26 * E" z] D
      have u: "52 * (E * m) \<le> 2 * z + 26 * E" and l: "2 * z - 26 * E \<le> 52 * (E * m)"
        by (simp_all add: m_def mult.assoc)
      have Eq: "E \<le> q" using q(1) be E_def by (intro small) simp_all
      have "0 \<le> E * m" using l Eq q by linarith
      moreover have "13 * (E * m) \<le> z" using u Eq q by linarith
      ultimately show ?thesis by (simp add: fl mult.commute)
    qed
  qed
  from pos have "0 \<le> remaining - 1" by simp
  from dbl[OF this] have b: "0 \<le> r" "r \<le> 2 * (remaining - 1)" by (simp_all add: r)
  from quot[OF b(1)] b(2) pos have "floorDiv26 r < remaining" by simp
  with pos
  show "((floorDiv26 r, fromLetterCode charCode # result), remaining, result)
        \<in> measure (\<lambda>(remaining, result). nat remaining)" by simp
qed

declare standard_loop.simps [simp del]

definition generateStandardAlphabeticalMarker :: "int \<Rightarrow> error + string" where
  "generateStandardAlphabeticalMarker val =
     (if val < 1 then Inl AlphabeticalValueOutOfRange else Inr (standard_loop val []))"

text \<open>The length search of \<open>generateRepeatedLettersMarker\<close>, with \<open>maxLength = 10\<close> and
  \<open>groupSize = 26\<close>; the state is \<open>(baseValue, length)\<close>.\<close>

function repeated_loop :: "int \<Rightarrow> int \<Rightarrow> nat \<Rightarrow> error + (int \<times> nat)" where
  "repeated_loop val baseValue len =
     (if len \<le> 10
      then if val \<le> baseValue + 26 then Inr (baseValue, len)
           else if len = 10 then Inl RepeatedLettersTooLarge
           else repeated_loop val (baseValue + 26) (len + 1)
      else Inr (baseValue, len))"
  by pat_completeness auto
termination
  by (relation "measure (\<lambda>(val, baseValue, len). 11 - len)") auto

declare repeated_loop.simps [simp del]

definition generateRepeatedLettersMarker :: "int \<Rightarrow> error + string" where
  "generateRepeatedLettersMarker val =
     (if val < 1 then Inl AlphabeticalValueOutOfRange
      else case repeated_loop val 0 1 of
             Inl e \<Rightarrow> Inl e
           | Inr (baseValue, len) \<Rightarrow>
               Inr (replicate len (fromLetterCode (val - baseValue))))"

text \<open>\<open>generateRomanMarker\<close>: for each entry of the table in order, the inner \<open>while\<close>
  appends the numeral as long as the remaining value allows. Every value of the table is
  positive; the test \<open>v > 0\<close> in \<open>roman_while\<close> only makes the function total on the arguments
  that the source never passes.\<close>

definition romanNumeralMap :: "(int \<times> string) list" where
  "romanNumeralMap =
     [(1000, ''m''), (900, ''cm''), (500, ''d''), (400, ''cd''), (100, ''c''), (90, ''xc''),
      (50, ''l''), (40, ''xl''), (10, ''x''), (9, ''ix''), (5, ''v''), (4, ''iv''), (1, ''i'')]"

function roman_while :: "int \<Rightarrow> string \<Rightarrow> string \<Rightarrow> int \<Rightarrow> string \<times> int" where
  "roman_while v numStr romanNumeral remainingValue =
     (if v > 0 \<and> remainingValue \<ge> v
      then roman_while v numStr (romanNumeral @ numStr) (remainingValue - v)
      else (romanNumeral, remainingValue))"
  by pat_completeness auto
termination
  by (relation "measure (\<lambda>(v, numStr, romanNumeral, remainingValue). nat remainingValue)") auto

declare roman_while.simps [simp del]

fun roman_for :: "(int \<times> string) list \<Rightarrow> string \<Rightarrow> int \<Rightarrow> string" where
  "roman_for [] romanNumeral remainingValue = romanNumeral"
| "roman_for ((v, numStr) # rest) romanNumeral remainingValue =
     (case roman_while v numStr romanNumeral remainingValue of
        (romanNumeral', remainingValue') \<Rightarrow> roman_for rest romanNumeral' remainingValue')"

definition generateRomanMarker :: "int \<Rightarrow> error + string" where
  "generateRomanMarker val =
     (if val < 1 then Inl RomanValueOutOfRange
      else Inr (roman_for romanNumeralMap [] val))"

subsection \<open>\<open>parseInt\<close> and \<open>ParsedListLine.getValue\<close>\<close>

text \<open>The white space that \<open>parseInt\<close> skips and that \<open>\s\<close> matches, within the code
  units 0..255: TAB, LF, VT, FF, CR, SPACE and NO-BREAK SPACE.\<close>

definition isWhiteSpace :: "char \<Rightarrow> bool" where
  "isWhiteSpace c = ((of_char c :: nat) \<in> {9, 10, 11, 12, 13, 32, 160})"

definition digitValue :: "char \<Rightarrow> nat option" where
  "digitValue c =
     (let n = (of_char c :: nat)
      in if 48 \<le> n \<and> n \<le> 57 then Some (n - 48)
         else if 97 \<le> n \<and> n \<le> 122 then Some (n - 87)
         else if 65 \<le> n \<and> n \<le> 90 then Some (n - 55)
         else None)"

definition isRadixDigit :: "nat \<Rightarrow> char \<Rightarrow> bool" where
  "isRadixDigit R c = (case digitValue c of None \<Rightarrow> False | Some d \<Rightarrow> d < R)"

definition radixValue :: "nat \<Rightarrow> string \<Rightarrow> int" where
  "radixValue R Z = foldl (\<lambda>acc c. acc * int R + int (the (digitValue c))) 0 Z"

text \<open>\<open>parseInt(string)\<close> with no radix argument: skip leading white space, read a sign,
  strip a \<open>0x\<close> prefix (radix 16), and take the longest prefix of digits; \<open>None\<close> is \<open>NaN\<close>.
  \<open>radixValue\<close> is only applied to characters that passed \<open>isRadixDigit\<close>.\<close>

definition parseInt :: "string \<Rightarrow> int option" where
  "parseInt str =
     (let S = dropWhile isWhiteSpace str;
          sign = (if take 1 S = ''-'' then - 1 else 1 :: int);
          S1 = (if take 1 S = ''-'' \<or> take 1 S = ''+'' then drop 1 S else S);
          R = (if take 2 S1 = ''0x'' \<or> take 2 S1 = ''0X'' then 16 else 10 :: nat);
          S2 = (if R = 16 then drop 2 S1 else S1);
          Z = takeWhile (isRadixDigit R) S2
      in if Z = [] then None else Some (sign * radixValue R Z))"

text \<open>The repeated-letters and the Roman decoder add small integers only and stay exact
  (their values are bounded by 1000 times the length of the marker); \<open>parseInt\<close> returns the
  number nearest to the integer it reads.\<close>

definition calculateAlphabeticalValue :: "ParsedListLine \<Rightarrow> bool \<Rightarrow> error + number" where
  "calculateAlphabeticalValue ln useRepeatedLettersMode =
     (let lowerMarker = toLowerCase (marker ln);
          useRepeatedMode = (useRepeatedLettersMode \<and> type ln = NestedAlphabetical
                             \<and> length lowerMarker > 1)
      in if useRepeatedMode then map_sum id Num (calculateRepeatedLettersValue (marker ln))
         else calculateBijectiveBase26Value (marker ln))"

definition getValue :: "ParsedListLine \<Rightarrow> bool \<Rightarrow> error + number" where
  "getValue ln useRepeatedLettersMode =
     (case type ln of
        Alphabetical \<Rightarrow> calculateAlphabeticalValue ln useRepeatedLettersMode
      | NestedAlphabetical \<Rightarrow> calculateAlphabeticalValue ln useRepeatedLettersMode
      | Roman \<Rightarrow> map_sum id Num (calculateRomanValue (marker ln))
      | Numbered \<Rightarrow> (case parseInt (marker ln) of None \<Rightarrow> Inr NaN | Some n \<Rightarrow> Inr (toNumber n))
      | Unordered \<Rightarrow> Inl UnknownListType)"

section \<open>Parser\<close>

subsection \<open>Regular expressions used with \<open>RegExp.test\<close>\<close>

text \<open>The fragment of JavaScript regular expressions that \<open>validRomanPattern\<close> is written
  in. \<open>rems r s\<close> lists, in the order the backtracking matcher tries them, the rests of
  \<open>s\<close> after each way of matching \<open>r\<close> at the start of \<open>s\<close>; a pattern anchored by \<open>^\<close> and
  \<open>$\<close> matches when one of the rests is empty.\<close>

datatype rx = Eps | Lit char | Seq rx rx | Alt rx rx | Opt rx

fun rems :: "rx \<Rightarrow> string \<Rightarrow> string list" where
  "rems Eps s = [s]"
| "rems (Lit c) s = (case s of [] \<Rightarrow> [] | x # t \<Rightarrow> if x = c then [t] else [])"
| "rems (Seq a b) s = concat (map (rems b) (rems a s))"
| "rems (Alt a b) s = rems a s @ rems b s"
| "rems (Opt a) s = rems a s @ [s]"

definition test_anchored :: "rx \<Rightarrow> string \<Rightarrow> bool" where
  "test_anchored r s = ([] \<in> set (rems r s))"

text \<open>A literal word, and the greedy bounded repetition \<open>r{0,n}\<close>.\<close>

fun word :: "string \<Rightarrow> rx" where
  "word [] = Eps"
| "word (c # cs) = Seq (Lit c) (word cs)"

fun upTo :: "nat \<Rightarrow> rx \<Rightarrow> rx" where
  "upTo 0 r = Eps"
| "upTo (Suc n) r = Opt (Seq r (upTo n r))"

text \<open>One group of the pattern, \<open>(one ten|one five|five? one{0,3})\<close> with the alternatives in
  the source's order, e.g. \<open>(cm|cd|d?c{0,3})\<close> for one = \<open>c\<close>, five = \<open>d\<close>, ten = \<open>m\<close>.\<close>

definition digitGroup :: "char \<Rightarrow> char \<Rightarrow> char \<Rightarrow> rx" where
  "digitGroup one five ten =
     Alt (word [one, ten]) (Alt (word [one, five]) (Seq (Opt (Lit five)) (upTo 3 (Lit one))))"

text \<open>\<open>/^m{0,3}(cm|cd|d?c{0,3})(xc|xl|l?x{0,3})(ix|iv|v?i{0,3})$/\<close>\<close>

definition validRomanPattern :: rx where
  "validRomanPattern =
     Seq (upTo 3 (Lit CHR ''m''))
       (Seq (digitGroup CHR ''c'' CHR ''d'' CHR ''m'')
         (Seq (digitGroup CHR ''x'' CHR ''l'' CHR ''c'')
              (digitGroup CHR ''i'' CHR ''v'' CHR ''x'')))"

subsection \<open>\<open>Parser.isValidRomanNumeral\<close>\<close>

definition isValidRomanNumeral :: "string \<Rightarrow> bool" where
  "isValidRomanNumeral mk =
     (let roman = toLowerCase mk
      in if roman = [] then False
         else if \<not> list_all (\<lambda>c. c \<in> set ''ivxlcdm'') roman then False
         else test_anchored validRomanPattern roman)"

subsection \<open>\<open>Parser.determineIntrinsicListType\<close> and \<open>Parser.determineListType\<close>\<close>

text \<open>\<open>None\<close> is the source's \<open>null\<close>.\<close>

definition determineIntrinsicListType ::
  "MoreOrderedListsSettings \<Rightarrow> string \<Rightarrow> ListType option" where
  "determineIntrinsicListType settings mk =
     (if mk = ''*'' \<or> mk = ''-'' \<or> mk = ''+'' then Some Unordered
      else if parseInt mk \<noteq> None then Some Numbered
      else if isValidRomanNumeral mk \<and> enableRomanLists settings then Some Roman
      else if length mk = 1 \<and> enableAlphabeticalLists settings then Some Alphabetical
      else if length mk > 1 \<and> nestedAlphabeticalMode settings \<noteq> ModeDisabled
        then Some NestedAlphabetical
      else None)"

definition determineListType ::
  "MoreOrderedListsSettings \<Rightarrow> string \<Rightarrow> ParsedListLine option \<Rightarrow> ListType option" where
  "determineListType settings mk context =
     (let intrinsicType = determineIntrinsicListType settings mk
      in case context of
           None \<Rightarrow> intrinsicType
         | Some ctx \<Rightarrow>
             if intrinsicType = Some (type ctx) then intrinsicType
             else if intrinsicType = Some Roman \<and> length mk = length (marker ctx)
                     \<and> (type ctx = Alphabetical \<or> type ctx = NestedAlphabetical)
               then Some (type ctx)
             else if type ctx = Alphabetical \<and> intrinsicType = Some NestedAlphabetical
               then Some NestedAlphabetical
             else None)"

subsection \<open>Indentation (\<open>ParsedListLine.getIndentationLevel\<close> and the level edits)\<close>

text \<open>The scan of \<open>getIndentationLevel\<close>: a tab adds one level, a maximal run of spaces adds
  a quarter of its length rounded down, any other character adds nothing.\<close>

function indentation_loop :: "string \<Rightarrow> nat \<Rightarrow> nat" where
  "indentation_loop [] level = level"
| "indentation_loop (c # cs) level =
     (if c = CHR 0x09 then indentation_loop cs (level + 1)
      else if c = CHR '' ''
        then let spaces = length (takeWhile (\<lambda>x. x = CHR '' '') (c # cs))
             in indentation_loop (dropWhile (\<lambda>x. x = CHR '' '') (c # cs)) (level + spaces div 4)
      else indentation_loop cs level)"
  by pat_completeness auto
termination
  by (relation "measure (\<lambda>(s, level). length s)")
     (auto simp: less_Suc_eq_le length_dropWhile_le)

definition getIndentationLevel :: "string \<Rightarrow> nat" where
  "getIndentationLevel ind = indentation_loop ind 0"


text \<open>\<open>decreaseIndentationLevel\<close> mutates \<open>this.indentation\<close>; the model returns the line after
  the call, or the error thrown. The branch \<open>return ''\<close> leaves the method without throwing
  and without assigning \<open>this.indentation\<close>: the line is returned as it was.\<close>

definition decreaseIndentationLevel :: "ParsedListLine \<Rightarrow> error + ParsedListLine" where
  "decreaseIndentationLevel ln =
     (if indentation ln = [] then Inl NoIndentationToDecrease
      else
        let result0 = indentation ln;
            trailingSpaces = length (takeWhile (\<lambda>x. x = CHR '' '') (rev result0));
            incompleteSpaces = trailingSpaces mod 4;
            result1 = (if incompleteSpaces \<noteq> 0
                       then take (length result0 - incompleteSpaces) result0 else result0)
        in if result1 \<noteq> [] \<and> last result1 = CHR 0x09
           then Inr (ln\<lparr>indentation := take (length result1 - 1) result1
                                            @ replicate incompleteSpaces CHR '' ''\<rparr>)
           else if trailingSpaces \<ge> 4
           then Inr (ln\<lparr>indentation := take (length result1 - 4) result1
                                            @ replicate incompleteSpaces CHR '' ''\<rparr>)
           else Inr ln)"

text \<open>\<open>getLineText\<close>; \<open>this.separator\<close> is the enum's string value \<open>.\<close> or \<open>)\<close>.\<close>

definition separatorText :: "ListSeparator \<Rightarrow> string" where
  "separatorText sep = (case sep of Dot \<Rightarrow> ''.'' | Parenthesis \<Rightarrow> '')'' | Parentheses \<Rightarrow> ''()'')"

definition getLineText :: "ParsedListLine \<Rightarrow> string" where
  "getLineText ln =
     (if separator ln = Parentheses
      then indentation ln @ ''('' @ marker ln @ '')'' @ content ln
      else indentation ln @ marker ln @ separatorText (separator ln) @ content ln)"

subsection \<open>\<open>Parser.parseLine\<close>\<close>

text \<open>The three patterns of \<open>parseLine\<close> are
  \<^verbatim>\<open>^(\s*)([*\-+]) (.*)$\<close>, \<^verbatim>\<open>^(\s*)(MARKER)([SEP]) (.*)$\<close> and \<^verbatim>\<open>^(\s*)\((MARKER)\) (.*)$\<close>,
  where \<open>MARKER\<close> is built by \<open>buildMarkerPattern\<close> and \<open>SEP\<close> by \<open>buildSeparatorPattern\<close>. Each
  has at most one way to match a line, which the model computes directly: the indentation
  is the whole leading white space (what follows it is not white space); a marker is a
  whole run of letters of the allowed case, or a whole run of digits (what follows it is
  a separator, neither letter nor digit); \<open>.\<close> matches any character but a line
  terminator.\<close>

definition isAlphabetChar :: "MoreOrderedListsSettings \<Rightarrow> char \<Rightarrow> bool" where
  "isAlphabetChar settings c =
     (let n = (of_char c :: nat)
      in (hasUppercase settings \<and> 65 \<le> n \<and> n \<le> 90)
         \<or> (hasLowercase settings \<and> 97 \<le> n \<and> n \<le> 122))"

definition isDigitChar :: "char \<Rightarrow> bool" where
  "isDigitChar c = (48 \<le> (of_char c :: nat) \<and> (of_char c :: nat) \<le> 57)"

definition isLineTerminator :: "char \<Rightarrow> bool" where
  "isLineTerminator c = (c = CHR 0x0A \<or> c = CHR 0x0D)"

text \<open>\<open>buildMarkerPattern\<close>: the alternatives \<open>[letters]{2,}\<close> (if \<open>needMulti\<close>), \<open>[letters]\<close> (if
  \<open>needSingle\<close>) and \<open>[0-9]+\<close>, matched at the start of \<open>str\<close> and followed by a character
  that is no letter and no digit. The result is the marker and the rest of the text.\<close>

definition matchMarker :: "MoreOrderedListsSettings \<Rightarrow> string \<Rightarrow> (string \<times> string) option" where
  "matchMarker settings str =
     (let letters = takeWhile (isAlphabetChar settings) str;
          digits = takeWhile isDigitChar str;
          needMulti = (nestedAlphabeticalMode settings \<noteq> ModeDisabled \<or> enableRomanLists settings);
          needSingle = (enableAlphabeticalLists settings \<or> enableRomanLists settings)
      in if (length letters \<ge> 2 \<and> needMulti) \<or> (length letters = 1 \<and> needSingle)
         then Some (letters, dropWhile (isAlphabetChar settings) str)
         else if digits \<noteq> [] then Some (digits, dropWhile isDigitChar str)
         else None)"

text \<open>A single space and then \<open>(.*)$\<close>: the content, if it holds no line terminator.\<close>

definition matchContent :: "string \<Rightarrow> string option" where
  "matchContent str =
     (case str of
        [] \<Rightarrow> None
      | sp # cnt \<Rightarrow> if sp = CHR '' '' \<and> list_all (\<lambda>c. \<not> isLineTerminator c) cnt
                    then Some cnt else None)"

definition unorderedMatch :: "string \<Rightarrow> (string \<times> string \<times> string) option" where
  "unorderedMatch lineText =
     (let ind = takeWhile isWhiteSpace lineText
      in case dropWhile isWhiteSpace lineText of
           [] \<Rightarrow> None
         | m # r \<Rightarrow>
             if m = CHR ''*'' \<or> m = CHR ''-'' \<or> m = CHR ''+''
             then (case matchContent r of None \<Rightarrow> None | Some cnt \<Rightarrow> Some (ind, [m], cnt))
             else None)"

definition standardMatch ::
  "MoreOrderedListsSettings \<Rightarrow> string \<Rightarrow> (string \<times> string \<times> ListSeparator \<times> string) option" where
  "standardMatch settings lineText =
     (let ind = takeWhile isWhiteSpace lineText
      in case matchMarker settings (dropWhile isWhiteSpace lineText) of
           None \<Rightarrow> None
         | Some (mk, r) \<Rightarrow>
             (case r of
                [] \<Rightarrow> None
              | sepc # r' \<Rightarrow>
                  if sepc = CHR ''.'' \<or> (enableParentheses settings \<and> sepc = CHR '')'')
                  then (case matchContent r' of
                          None \<Rightarrow> None
                        | Some cnt \<Rightarrow>
                            Some (ind, mk, if sepc = CHR ''.'' then Dot else Parenthesis, cnt))
                  else None))"

definition parenthesesMatch ::
  "MoreOrderedListsSettings \<Rightarrow> string \<Rightarrow> (string \<times> string \<times> string) option" where
  "parenthesesMatch settings lineText =
     (let ind = takeWhile isWhiteSpace lineText
      in case dropWhile isWhiteSpace lineText of
           [] \<Rightarrow> None
         | op # r0 \<Rightarrow>
             if op = CHR ''(''
             then (case matchMarker settings r0 of
                     None \<Rightarrow> None
                   | Some (mk, r) \<Rightarrow>
                       (case r of
                          [] \<Rightarrow> None
                        | cl # r' \<Rightarrow>
                            if cl = CHR '')''
                            then (case matchContent r' of
                                    None \<Rightarrow> None
                                  | Some cnt \<Rightarrow> Some (ind, mk, cnt))
                            else None))
             else None)"

definition createResult ::
  "MoreOrderedListsSettings \<Rightarrow> string \<Rightarrow> string \<Rightarrow> ListSeparator \<Rightarrow> string
     \<Rightarrow> ParsedListLine option \<Rightarrow> ParsedListLine option" where
  "createResult settings ind mk sep cnt context =
     (case determineListType settings mk context of
        None \<Rightarrow> None
      | Some listType \<Rightarrow>
          Some \<lparr>type = listType, indentation = ind, marker = mk, separator = sep,
                content = cnt\<rparr>)"

definition parseLine ::
  "MoreOrderedListsSettings \<Rightarrow> string \<Rightarrow> ParsedListLine option \<Rightarrow> ParsedListLine option" where
  "parseLine settings lineText context =
     (case unorderedMatch lineText of
        Some (ind, mk, cnt) \<Rightarrow> createResult settings ind mk Dot cnt context
      | None \<Rightarrow>
          (case standardMatch settings lineText of
             Some (ind, mk, sep, cnt) \<Rightarrow> createResult settings ind mk sep cnt context
           | None \<Rightarrow>
               if enableParentheses settings
               then (case parenthesesMatch settings lineText of
                       Some (ind, mk, cnt) \<Rightarrow>
                         createResult settings ind mk Parentheses cnt context
                     | None \<Rightarrow> None)
               else None))"

subsection \<open>\<open>Parser.parseList\<close> and \<open>Parser.parseLists\<close>\<close>

text \<open>A document is read through \<open>doc.line(n).text\<close> only.\<close>

type_synonym Text = "int \<Rightarrow> string"

text \<open>The mock document of \<open>parseLines\<close>: \<open>lines[lineNum - 1] || ''\<close>.\<close>

definition mockDoc :: "string list \<Rightarrow> Text" where
  "mockDoc lines n = (if 1 \<le> n \<and> n \<le> int (length lines) then lines ! nat (n - 1) else [])"

definition Parser_getIndentationLevel :: "string \<Rightarrow> nat" where
  "Parser_getIndentationLevel lineText = getIndentationLevel (takeWhile isWhiteSpace lineText)"

text \<open>The body of the \<open>for\<close> loop of \<open>parseList\<close> for one line: \<open>None\<close> is a \<open>break\<close>, otherwise
  the new context stack and the parsed line. The \<open>while\<close> loop that pops the stack while
  \<open>contextStack.length - 1 > indentationLevel\<close> leaves its first \<open>indentationLevel + 1\<close>
  entries. The assignment \<open>contextStack[indentationLevel] = current\<close> is reached with
  \<open>indentationLevel < contextStack.length\<close> only.\<close>

definition parseList_body ::
  "MoreOrderedListsSettings \<Rightarrow> string \<Rightarrow> ParsedListLine list
     \<Rightarrow> (ParsedListLine list \<times> ParsedListLine) option" where
  "parseList_body settings lineText contextStack0 =
     (let indentationLevel = Parser_getIndentationLevel lineText
      in if length contextStack0 < indentationLevel then None
         else
           let contextStack = take (indentationLevel + 1) contextStack0;
               context = (if length contextStack > indentationLevel
                          then Some (contextStack ! indentationLevel) else None)
           in case parseLine settings lineText context of
                None \<Rightarrow> None
              | Some current \<Rightarrow>
                  let parent = (if indentationLevel > 0 \<and> length contextStack \<ge> indentationLevel
                                then Some (contextStack ! (indentationLevel - 1)) else None)
                  in if context = None \<and> parent = None \<and> indentationLevel > 0 then None
                     else if (type current = Unordered
                              \<or> (type current = Numbered \<and> separator current \<noteq> Parentheses))
                             \<and> (parent = None \<or> indentationLevel = 0)
                       then None
                     else if length contextStack = indentationLevel
                       then Some (contextStack @ [current], current)
                     else Some (contextStack[indentationLevel := current], current))"

function parseList_loop ::
  "MoreOrderedListsSettings \<Rightarrow> Text \<Rightarrow> int \<Rightarrow> int \<Rightarrow> ParsedListLine list
     \<Rightarrow> (int \<times> ParsedListLine) list \<Rightarrow> (int \<times> ParsedListLine) list" where
  "parseList_loop settings doc end lineNumber contextStack parsedLines =
     (if lineNumber \<le> end
      then case parseList_body settings (doc lineNumber) contextStack of
             None \<Rightarrow> parsedLines
           | Some (contextStack', current) \<Rightarrow>
               parseList_loop settings doc end (lineNumber + 1) contextStack'
                 (parsedLines @ [(lineNumber, current)])
      else parsedLines)"
  by pat_completeness auto
termination
  by (relation "measure (\<lambda>(settings, doc, end, lineNumber, contextStack, parsedLines).
                           nat (end + 1 - lineNumber))") auto

declare parseList_loop.simps [simp del]

definition parseList ::
  "MoreOrderedListsSettings \<Rightarrow> Text \<Rightarrow> int \<Rightarrow> int \<Rightarrow> (int \<times> ParsedListLine) list" where
  "parseList settings doc start end = parseList_loop settings doc end start [] []"

text \<open>\<open>parseLists\<close>: the next list is searched from the line after the last line of the list
  just found, \<open>Math.max(...parsedList.map(([lineNumber]) => lineNumber)) + 1\<close>. The loop ends
  because the lines of a list found from \<open>currentLine\<close> are \<open>currentLine\<close>, \<open>currentLine + 1\<close>, ...\<close>

function parseLists_loop ::
  "MoreOrderedListsSettings \<Rightarrow> Text \<Rightarrow> int \<Rightarrow> int \<Rightarrow> (int \<times> ParsedListLine) list list
     \<Rightarrow> (int \<times> ParsedListLine) list list" where
  "parseLists_loop settings doc end currentLine parsedLists =
     (if currentLine \<le> end
      then let parsedList = parseList settings doc currentLine end
           in if length parsedList > 0
              then parseLists_loop settings doc end (Max (set (map fst parsedList)) + 1)
                     (parsedLists @ [parsedList])
              else parseLists_loop settings doc end (currentLine + 1) parsedLists
      else parsedLists)"
  by pat_completeness auto
termination
proof (relation "measure (\<lambda>(settings, doc, end, currentLine, parsedLists).
                           nat (end + 1 - currentLine))")
  show "wf (measure (\<lambda>(settings, doc, end, currentLine, parsedLists). nat (end + 1 - currentLine)))"
    by simp
next
  fix settings :: MoreOrderedListsSettings and doc :: Text and "end" currentLine :: int
    and parsedLists :: "(int \<times> ParsedListLine) list list" and parsedList
  assume le: "currentLine \<le> end" and pl: "parsedList = parseList settings doc currentLine end"
    and ne: "0 < length parsedList"
  have lines: "\<exists>k. map fst (parseList_loop settings doc end n cs acc)
                   = map fst acc @ map (\<lambda>i. n + int i) [0..<k]" for n cs acc
  proof (induction settings doc "end" n cs acc rule: parseList_loop.induct)
    case (1 settings doc "end" lineNumber contextStack parsedLines)
    show ?case
    proof (cases "lineNumber \<le> end
                  \<and> parseList_body settings (doc lineNumber) contextStack \<noteq> None")
      case False
      then have "parseList_loop settings doc end lineNumber contextStack parsedLines
                 = parsedLines"
        by (subst parseList_loop.simps) (auto split: option.splits)
      then have "map fst (parseList_loop settings doc end lineNumber contextStack parsedLines)
                 = map fst parsedLines @ map (\<lambda>i. lineNumber + int i) [0..<0]" by simp
      then show ?thesis by blast
    next
      case True
      then obtain cs' current
        where b: "parseList_body settings (doc lineNumber) contextStack = Some (cs', current)"
        by auto
      have step: "parseList_loop settings doc end lineNumber contextStack parsedLines
            = parseList_loop settings doc end (lineNumber + 1) cs'
                (parsedLines @ [(lineNumber, current)])"
        using True b by (subst parseList_loop.simps) simp
      from True have "lineNumber \<le> end" by simp
      from "1.IH"[OF this b refl]
      obtain k where k: "map fst (parseList_loop settings doc end (lineNumber + 1) cs'
                (parsedLines @ [(lineNumber, current)]))
          = map fst (parsedLines @ [(lineNumber, current)])
            @ map (\<lambda>i. lineNumber + 1 + int i) [0..<k]" by blast
      have "map (\<lambda>i. lineNumber + int i) [0..<Suc k]
            = lineNumber # map (\<lambda>i. lineNumber + 1 + int i) [0..<k]"
        by (simp add: upt_conv_Cons map_Suc_upt[symmetric] del: upt_Suc)
      with k step
      have "map fst (parseList_loop settings doc end lineNumber contextStack parsedLines)
            = map fst parsedLines @ map (\<lambda>i. lineNumber + int i) [0..<Suc k]"
        by simp
      then show ?thesis by blast
    qed
  qed
  from lines[of currentLine "[]" "[]"] pl
  obtain k where k: "map fst parsedList = map (\<lambda>i. currentLine + int i) [0..<k]"
    by (auto simp: parseList_def)
  with ne have "k \<noteq> 0" by (cases k) auto
  then have "currentLine \<in> set (map fst parsedList)" unfolding k by force
  then have "currentLine \<le> Max (set (map fst parsedList))" by (intro Max_ge) simp_all
  with le show "((settings, doc, end, Max (set (map fst parsedList)) + 1,
                  parsedLists @ [parsedList]),
                 (settings, doc, end, currentLine, parsedLists))
        \<in> measure (\<lambda>(settings, doc, end, currentLine, parsedLists). nat (end + 1 - currentLine))"
    by simp
next
  fix settings :: MoreOrderedListsSettings and doc :: Text and "end" currentLine :: int
    and parsedLists :: "(int \<times> ParsedListLine) list list"
  assume "currentLine \<le> end"
  then show "((settings, doc, end, currentLine + 1, parsedLists),
         (settings, doc, end, currentLine, parsedLists))
        \<in> measure (\<lambda>(settings, doc, end, currentLine, parsedLists). nat (end + 1 - currentLine))"
    by simp
qed

declare parseLists_loop.simps [simp del]

definition parseLists ::
  "MoreOrderedListsSettings \<Rightarrow> Text \<Rightarrow> int \<Rightarrow> int \<Rightarrow> (int \<times> ParsedListLine) list list" where
  "parseLists settings doc start end = parseLists_loop settings doc end start []"

text \<open>\<open>parseLines(lines)\<close>, the entry point of the reading-mode processor and of the tests.\<close>

definition parseLines :: "MoreOrderedListsSettings \<Rightarrow> string list \<Rightarrow> (int \<times> ParsedListLine) list list" where
  "parseLines settings lines = parseLists settings (mockDoc lines) 1 (int (length lines))"

section \<open>Marker correction and the key handler\<close>

subsection \<open>Case style and first markers (\<open>ParsedListLine\<close>)\<close>

text \<open>\<open>toUpperCase\<close> on the code units 0..255: the ASCII and the Latin-1 small letters
  (0xE0..0xFE without the division sign 0xF7) move down by 32, and the sharp s (0xDF)
  becomes \<open>SS\<close>. The upper-case forms of 0xB5 and 0xFF are no code units of this range, so
  a string that holds one of the two is outside the model; no marker pattern accepts
  them.\<close>

definition toUpperCase_char :: "char \<Rightarrow> string" where
  "toUpperCase_char c =
     (let n = (of_char c :: nat)
      in if (97 \<le> n \<and> n \<le> 122) \<or> (224 \<le> n \<and> n \<le> 254 \<and> n \<noteq> 247)
         then [char_of (n - 32)]
         else if n = 223 then ''SS'' else [c])"

definition toUpperCase :: "string \<Rightarrow> string" where
  "toUpperCase s = concat (map toUpperCase_char s)"



definition applyCaseStyle :: "ParsedListLine \<Rightarrow> string \<Rightarrow> string" where
  "applyCaseStyle ln mk =
     (if marker ln = toUpperCase (marker ln) then toUpperCase mk
      else if marker ln = toLowerCase (marker ln) then toLowerCase mk
      else mk)"




subsection \<open>The successor marker\<close>

text \<open>\<open>Number.prototype.toString\<close>: the decimal digits of an integer up to $2^{53}$ (for
  a larger number the source prints the shortest decimal that rounds to it, which is
  outside this definition).\<close>

function showNat :: "nat \<Rightarrow> string" where
  "showNat n = (if n < 10 then [char_of (48 + n)]
                else showNat (n div 10) @ [char_of (48 + n mod 10)])"
  by pat_completeness auto
termination
  by (relation "measure id") auto

declare showNat.simps [simp del]

definition numberToString :: "number \<Rightarrow> string" where
  "numberToString v =
     (case v of
        NaN \<Rightarrow> ''NaN''
      | Infinity \<Rightarrow> ''Infinity''
      | NegInfinity \<Rightarrow> ''-Infinity''
      | Num i \<Rightarrow> if i < 0 then CHR ''-'' # showNat (nat (- i)) else showNat (nat i))"

text \<open>The generators applied to a \<open>number\<close>. For \<open>NaN\<close> every comparison of the source is
  false, so the guards \<open>value < 1\<close> pass, the \<open>while\<close> loops of the standard and the Roman
  generator do not run, and the length search of the repeated-letters generator runs to
  its \<open>throw\<close>. For \<open>Infinity\<close> the guards pass as well, the length search runs to its
  \<open>throw\<close>, and the \<open>while\<close> loops of the standard and the Roman generator stay true while
  the result grows by one character per round, until the runtime refuses the string.\<close>

definition generateAlphabeticalMarker :: "MoreOrderedListsSettings \<Rightarrow> number \<Rightarrow> error + string" where
  "generateAlphabeticalMarker settings v =
     (case v of
        NaN \<Rightarrow> if nestedAlphabeticalMode settings = ModeRepeated
               then Inl RepeatedLettersTooLarge else Inr []
      | Infinity \<Rightarrow> if nestedAlphabeticalMode settings = ModeRepeated
                    then Inl RepeatedLettersTooLarge else Inl InvalidStringLength
      | NegInfinity \<Rightarrow> Inl AlphabeticalValueOutOfRange
      | Num i \<Rightarrow>
          if i < 1 then Inl AlphabeticalValueOutOfRange
          else if nestedAlphabeticalMode settings = ModeRepeated
            then generateRepeatedLettersMarker i
          else generateStandardAlphabeticalMarker i)"

definition addOne :: "number \<Rightarrow> number" where
  "addOne v = plusNumber v (Num 1)"

text \<open>\<open>Parser.correctMarker(type, context)\<close>; the \<open>switch\<close> has no case for an unordered line
  and then returns \<open>undefined\<close>, which is kept as an error value here.\<close>

definition correctMarker ::
  "MoreOrderedListsSettings \<Rightarrow> ListType \<Rightarrow> ParsedListLine \<Rightarrow> error + string" where
  "correctMarker settings ty context =
     (case getValue context (nestedAlphabeticalMode settings = ModeRepeated) of
        Inl e \<Rightarrow> Inl e
      | Inr v \<Rightarrow>
          let expectedValue = addOne v
          in case ty of
               Roman \<Rightarrow>
                 (case expectedValue of
                    NaN \<Rightarrow> Inr (applyCaseStyle context [])
                  | Infinity \<Rightarrow> Inl InvalidStringLength
                  | NegInfinity \<Rightarrow> Inl RomanValueOutOfRange
                  | Num i \<Rightarrow> map_sum id (applyCaseStyle context) (generateRomanMarker i))
             | Alphabetical \<Rightarrow>
                 map_sum id (applyCaseStyle context)
                   (generateAlphabeticalMarker settings expectedValue)
             | NestedAlphabetical \<Rightarrow>
                 map_sum id (applyCaseStyle context)
                   (generateAlphabeticalMarker settings expectedValue)
             | Numbered \<Rightarrow> Inr (numberToString expectedValue)
             | Unordered \<Rightarrow> Inl UnknownListType)"

subsection \<open>The parser of release 0.0.1 (\<open>Parser.parseLine\<close>, \<open>createResult\<close>, \<open>determineListType\<close>)\<close>

text \<open>
  \<open>getLineText\<close> above belongs to the release of \<open>types.ts\<close> whose \<open>content\<close> "contains the
  leading space(s)". The parser of that release has the same two line patterns and the
  same marker and separator patterns as the one above (it has no pattern for bullets), puts
  the space back in front of the captured content, and with a sibling context rewrites the
  marker to the successor of the context's marker. Its \<open>determineListType\<close> takes the type
  from the context when there is one; \<open>context.getValue(...)\<close> is only evaluated for a marker
  of at most one character, and its error leaves the parser.
\<close>

definition determineListType_part_001 ::
  "MoreOrderedListsSettings \<Rightarrow> string \<Rightarrow> ParsedListLine option \<Rightarrow> error + ListType option" where
  "determineListType_part_001 settings mk context =
     (case context of
        Some ctx \<Rightarrow>
          (case type ctx of
             Alphabetical \<Rightarrow>
               (case (if length mk > 1 then Inr True
                      else map_sum id (\<lambda>v. v = Num 26)
                             (getValue ctx (nestedAlphabeticalMode settings = ModeRepeated))) of
                  Inl e \<Rightarrow> Inl e
                | Inr True \<Rightarrow>
                    if nestedAlphabeticalMode settings \<noteq> ModeDisabled
                    then Inr (Some NestedAlphabetical) else Inr None
                | Inr False \<Rightarrow> Inr (Some Alphabetical))
           | _ \<Rightarrow> Inr (Some (type ctx)))
      | None \<Rightarrow>
          Inr (if parseInt mk \<noteq> None then Some Numbered
               else if isValidRomanNumeral mk \<and> enableRomanLists settings then Some Roman
               else if length mk = 1 \<and> enableAlphabeticalLists settings then Some Alphabetical
               else if length mk > 1 \<and> nestedAlphabeticalMode settings \<noteq> ModeDisabled
                 then Some NestedAlphabetical
               else None))"

definition createResult_part_001 ::
  "MoreOrderedListsSettings \<Rightarrow> string \<Rightarrow> string \<Rightarrow> ListSeparator \<Rightarrow> string
     \<Rightarrow> ParsedListLine option \<Rightarrow> error + ParsedListLine option" where
  "createResult_part_001 settings ind mk sep cnt context =
     (case determineListType_part_001 settings mk context of
        Inl e \<Rightarrow> Inl e
      | Inr None \<Rightarrow> Inr None
      | Inr (Some listType) \<Rightarrow>
          (case context of
             None \<Rightarrow>
               Inr (Some \<lparr>type = listType, indentation = ind, marker = mk, separator = sep,
                          content = CHR '' '' # cnt\<rparr>)
           | Some ctx \<Rightarrow>
               (case correctMarker settings listType ctx of
                  Inl e \<Rightarrow> Inl e
                | Inr mk' \<Rightarrow>
                    Inr (Some \<lparr>type = listType, indentation = ind, marker = mk',
                               separator = separator ctx, content = CHR '' '' # cnt\<rparr>))))"

definition parseLine_part_001 ::
  "MoreOrderedListsSettings \<Rightarrow> string \<Rightarrow> ParsedListLine option
     \<Rightarrow> error + ParsedListLine option" where
  "parseLine_part_001 settings lineText context =
     (case standardMatch settings lineText of
        Some (ind, mk, sep, cnt) \<Rightarrow> createResult_part_001 settings ind mk sep cnt context
      | None \<Rightarrow>
          if enableParentheses settings
          then (case parenthesesMatch settings lineText of
                  Some (ind, mk, cnt) \<Rightarrow>
                    createResult_part_001 settings ind mk Parentheses cnt context
                | None \<Rightarrow> Inr None)
          else Inr None)"

subsection \<open>The successor marker in the key handler\<close>



subsection \<open>\<open>KeyHandler\<close>: collecting and applying the line rewrites\<close>










subsection \<open>\<open>KeyHandler.tabKey\<close> and \<open>KeyHandler.enterKey\<close> with the forward walk\<close>











subsection \<open>\<open>KeyHandler.tabKey\<close> and \<open>KeyHandler.enterKey\<close> of release 0.0.1 (\<open>src/editor/key-handler.ts\<close>)\<close>



section \<open>Auxiliary notions for the statements and proofs\<close>

text \<open>A lower-case ASCII letter, i.e. a character whose \<open>letterCode\<close> is a digit 1..26 of
  the bijective numeration.\<close>

definition isLowerLetter :: "char \<Rightarrow> bool" where
  "isLowerLetter c = (1 \<le> letterCode c \<and> letterCode c \<le> 26)"

text \<open>The value of a letter string in bijective base 26, written as the mathematical sum
  $\sum_i d_i \cdot 26^{n-1-i}$.\<close>

fun positionalValue :: "string \<Rightarrow> int" where
  "positionalValue [] = 0"
| "positionalValue (c # cs) = letterCode c * 26 ^ length cs + positionalValue cs"

text \<open>A number that is at least the integer \<open>b\<close>.\<close>

definition numAtLeast :: "number \<Rightarrow> int \<Rightarrow> bool" where
  "numAtLeast n b = (case n of Num y \<Rightarrow> b \<le> y | Infinity \<Rightarrow> True | _ \<Rightarrow> False)"

text \<open>The language of a pattern, as a set of strings.\<close>

fun lang :: "rx \<Rightarrow> string set" where
  "lang Eps = {[]}"
| "lang (Lit c) = {[c]}"
| "lang (Seq a b) = (\<lambda>(p, q). p @ q) ` (lang a \<times> lang b)"
| "lang (Alt a b) = lang a \<union> lang b"
| "lang (Opt a) = insert [] (lang a)"

text \<open>The canonical numeral of one decimal digit \<open>d\<close> (0..9) written with the symbols for
  one, five and ten units, and the canonical numeral of
  \<open>1000 * k + 100 * h + 10 * t + u\<close>.\<close>

definition romanDigit :: "char \<Rightarrow> char \<Rightarrow> char \<Rightarrow> nat \<Rightarrow> string" where
  "romanDigit one five ten d =
     (if d = 9 then [one, ten]
      else if 5 \<le> d then five # replicate (d - 5) one
      else if d = 4 then [one, five]
      else replicate d one)"

definition canonicalRoman :: "nat \<Rightarrow> nat \<Rightarrow> nat \<Rightarrow> nat \<Rightarrow> string" where
  "canonicalRoman k h t u =
     replicate k CHR ''m'' @ romanDigit CHR ''c'' CHR ''d'' CHR ''m'' h
       @ romanDigit CHR ''x'' CHR ''l'' CHR ''c'' t @ romanDigit CHR ''i'' CHR ''v'' CHR ''x'' u"

text \<open>The Marker Line values of the data model under a configuration: the indentation is
  white space, the marker is a token of the marker pattern (a run of letters of an allowed
  case, of a length the configuration reads, or a run of digits), the separator is one
  that the configuration reads, and the content is the separating space followed by text
  without a line terminator.\<close>

definition isMarkerToken :: "MoreOrderedListsSettings \<Rightarrow> string \<Rightarrow> bool" where
  "isMarkerToken settings mk =
     ((list_all (isAlphabetChar settings) mk
        \<and> ((2 \<le> length mk
              \<and> (nestedAlphabeticalMode settings \<noteq> ModeDisabled \<or> enableRomanLists settings))
            \<or> (length mk = 1
                \<and> (enableAlphabeticalLists settings \<or> enableRomanLists settings))))
      \<or> (mk \<noteq> [] \<and> list_all isDigitChar mk))"

definition isMarkerLine :: "MoreOrderedListsSettings \<Rightarrow> ParsedListLine \<Rightarrow> bool" where
  "isMarkerLine settings ln =
     (list_all isWhiteSpace (indentation ln)
      \<and> isMarkerToken settings (marker ln)
      \<and> (separator ln = Dot \<or> enableParentheses settings)
      \<and> (case content ln of
            [] \<Rightarrow> False
          | sp # cnt \<Rightarrow> sp = CHR '' '' \<and> list_all (\<lambda>c. \<not> isLineTerminator c) cnt))"

text \<open>The line numbers of a sequence of parsed lists, in order, and a run of consecutive
  integers.\<close>

definition linesOf :: "(int \<times> ParsedListLine) list list \<Rightarrow> int list" where
  "linesOf ls = concat (map (map fst) ls)"

definition isRun :: "int list \<Rightarrow> bool" where
  "isRun xs = (xs = map (\<lambda>i. hd xs + int i) [0..<length xs])"









section \<open>Verification\<close>

subsection \<open>Bijective base 26\<close>

lemma bitLength_le: "n < 2 ^ k \<Longrightarrow> bitLength n \<le> k"
proof (induction k arbitrary: n)
  case 0
  then have "n \<le> 0" by simp
  then show ?case by (subst bitLength.simps) simp
next
  case (Suc k)
  show ?case
  proof (cases "n \<le> 0")
    case True
    then show ?thesis by (subst bitLength.simps) simp
  next
    case False
    from Suc.prems have "n div 2 < 2 ^ k" by simp
    then have "bitLength (n div 2) \<le> k" by (rule Suc.IH)
    with False show ?thesis by (subst bitLength.simps) simp
  qed
qed

lemma bitLength_ge: "0 < n \<Longrightarrow> 2 ^ bitLength n \<le> 2 * n"
proof (induction n rule: bitLength.induct)
  case (1 n)
  show ?case
  proof (cases "n div 2 \<le> 0")
    case True
    then have "bitLength (n div 2) = 0" by (subst bitLength.simps) simp
    with 1(2) have "bitLength n = 1" by (subst bitLength.simps) simp
    with 1(2) show ?thesis by simp
  next
    case False
    then have "(2::int) ^ bitLength (n div 2) \<le> 2 * (n div 2)"
      using 1(1) 1(2) by simp
    also have "\<dots> \<le> n" by simp
    finally have "(2::int) * 2 ^ bitLength (n div 2) \<le> 2 * n" by simp
    moreover have "bitLength n = Suc (bitLength (n div 2))"
      using 1(2) by (subst bitLength.simps) simp
    ultimately show ?thesis by simp
  qed
qed

lemma roundHalfEven_bounds:
  assumes "0 < d"
  shows "2 * d * roundHalfEven n d \<le> 2 * n + d" and "2 * n - d \<le> 2 * d * roundHalfEven n d"
proof -
  define q where "q = n div d"
  define r where "r = n mod d"
  have n: "n = d * q + r" by (simp add: q_def r_def)
  have r: "0 \<le> r" "r < d" using assms by (simp_all add: r_def)
  have c: "roundHalfEven n d = q \<and> 2 * r \<le> d \<or> roundHalfEven n d = q + 1 \<and> d \<le> 2 * r"
    by (auto simp: roundHalfEven_def Let_def q_def r_def)
  have e1: "2 * d * q = 2 * (d * q)" and e2: "2 * d * (q + 1) = 2 * (d * q) + 2 * d"
    by (simp_all add: algebra_simps)
  from c show "2 * d * roundHalfEven n d \<le> 2 * n + d"
    unfolding n using r by (auto simp: e1 e2)
  from c show "2 * n - d \<le> 2 * d * roundHalfEven n d"
    unfolding n using r by (auto simp: e1 e2)
qed

lemma roundHalfEven_one: "roundHalfEven n 1 = n"
  by (simp add: roundHalfEven_def)

lemma roundHalfEven_exact: "0 < d \<Longrightarrow> roundHalfEven (k * d) d = k"
  by (simp add: roundHalfEven_def)

lemma roundToDouble_exact:
  assumes "0 \<le> x" and "x \<le> 2 ^ 53"
  shows "roundToDouble x = x"
proof (cases "x = 2 ^ 53")
  case True
  have "bitLength (2 ^ 53) = 54" by code_simp
  then show ?thesis unfolding True roundToDouble_def by (simp add: roundHalfEven_def)
next
  case False
  with assms have "x < 2 ^ 53" by simp
  then have "bitLength x \<le> 53" by (rule bitLength_le)
  then have "bitLength x - 53 = 0" by simp
  with assms(1) show ?thesis by (simp add: roundToDouble_def roundHalfEven_one)
qed

lemma roundToDouble_ge:
  assumes "2 ^ 53 \<le> x"
  shows "2 ^ 53 \<le> roundToDouble x"
proof (cases "bitLength x \<le> 53")
  case True
  then have "bitLength x - 53 = 0" by simp
  with assms show ?thesis by (simp add: roundToDouble_def roundHalfEven_one)
next
  case False
  define e where "e = bitLength x - 53"
  define E :: int where "E = 2 ^ e"
  define P :: int where "P = 2 ^ 52"
  define M where "M = roundHalfEven x E"
  from False have b: "bitLength x = e + 53" and e: "0 < e" by (simp_all add: e_def)
  have x: "0 < x" using assms by (rule less_le_trans[rotated]) simp
  have D: "0 < E" by (simp add: E_def)
  have E2: "2 \<le> E"
  proof -
    have "(2::int) ^ 1 \<le> 2 ^ e" using e by (intro power_increasing) simp_all
    then show ?thesis by (simp add: E_def)
  qed
  from roundHalfEven_bounds(2)[OF D, of x]
  have l: "2 * x - E \<le> 2 * E * M" by (simp add: M_def)
  have "(2::int) ^ (e + 53) = E * (2 * P)" by (simp add: E_def P_def power_add)
  with bitLength_ge[OF x] have g: "E * (2 * P) \<le> 2 * x" by (simp add: b)
  have "E * (2 * P - 1) \<le> E * (2 * M)"
    using l g by (simp add: algebra_simps)
  then have "2 * P - 1 \<le> 2 * M"
    using D by (simp only: mult_le_cancel_left_pos)
  then have m: "P \<le> M" by simp
  have P0: "0 \<le> P" by (simp add: P_def)
  have "P * 2 \<le> M * E"
    using m E2 P0 by (intro mult_mono) simp_all
  moreover have "(2::int) ^ 53 = P * 2" by (simp add: P_def)
  moreover have "roundToDouble x = M * E"
    using x by (simp add: roundToDouble_def e_def[symmetric] M_def E_def)
  ultimately show ?thesis by simp
qed

lemma toNumber_exact:
  assumes "0 \<le> x" and "x \<le> 2 ^ 53"
  shows "toNumber x = Num x"
proof -
  have "(2::int) ^ 53 < 2 ^ 1024" by (rule power_strict_increasing) simp_all
  with assms have "x < 2 ^ 1024" by simp
  moreover have "- (2 ^ 1024) < x"
    using assms(1) by (rule less_le_trans[rotated]) simp
  ultimately show ?thesis
    by (simp add: toNumber_def roundToDouble_exact[OF assms] Let_def)
qed

lemma div_between:
  fixes m :: int
  assumes "0 < S" and "q * S \<le> m" and "m < (q + 1) * S"
  shows "m div S = q"
proof (rule int_div_pos_eq)
  show "m = S * q + (m - q * S)" by (simp add: algebra_simps)
  show "0 \<le> m - q * S" using assms(2) by simp
  show "m - q * S < S" using assms(3) by (simp add: algebra_simps)
qed

lemma floorDiv26_exact:
  assumes "0 \<le> r" and "r < 2 ^ 53"
  shows "floorDiv26 r = r div 26"
proof (cases "r < 26")
  case True
  with assms(1) show ?thesis by (simp add: floorDiv26_def)
next
  case False
  define q where "q = r div 26"
  define t where "t = r mod 26"
  define s where "s = 53 - bitLength q"
  define S :: int where "S = 2 ^ s"
  define m where "m = roundHalfEven (r * S) 26"
  have r: "r = 26 * q + t" by (simp add: q_def t_def)
  have t: "0 \<le> t" "t \<le> 25" by (simp_all add: t_def) 
  have "q < 2 ^ 49" using assms(2) by (simp add: q_def)
  then have b: "bitLength q \<le> 49" by (rule bitLength_le)
  then have e: "bitLength q - 53 = 0" and s4: "4 \<le> s" by (simp_all add: s_def)
  have "(2::int) ^ 4 \<le> 2 ^ s" using s4 by (intro power_increasing) simp_all
  then have S: "16 \<le> S" by (simp add: S_def)
  have f: "floorDiv26 r = m div S"
    using False e by (simp add: floorDiv26_def Let_def q_def[symmetric] s_def[symmetric]
        S_def[symmetric] m_def)
  from roundHalfEven_bounds[of 26 "r * S"]
  have u: "52 * m \<le> 2 * (r * S) + 26" and l: "2 * (r * S) - 26 \<le> 52 * m"
    by (simp_all add: m_def)
  have rS: "r * S = 26 * (q * S) + t * S" by (simp add: r algebra_simps)
  have tS: "0 \<le> t * S" "t * S \<le> 25 * S"
    using t S by (simp_all add: mult_right_mono)
  have lo: "q * S \<le> m" using l rS tS(1) by linarith
  have hi: "m < (q + 1) * S"
  proof -
    have "52 * m < 52 * (q * S) + 52 * S" using u rS tS(2) S by linarith
    then show ?thesis by (simp add: algebra_simps)
  qed
  have "m div S = q" using S lo hi by (intro div_between) simp_all
  with f show ?thesis by (simp add: q_def)
qed

lemma letterCode_fromLetterCode:
  "1 \<le> k \<Longrightarrow> k \<le> 26 \<Longrightarrow> letterCode (fromLetterCode k) = k"
  by (simp add: letterCode_def fromLetterCode_def nat_add_distrib)

lemma toLowerCase_char_lower: "isLowerLetter c \<Longrightarrow> toLowerCase_char c = c"
  by (auto simp: toLowerCase_char_def isLowerLetter_def letterCode_def Let_def)

lemma toLowerCase_lower: "list_all isLowerLetter s \<Longrightarrow> toLowerCase s = s"
  by (induction s) (simp_all add: toLowerCase_def toLowerCase_char_lower)

lemma positionalValue_snoc:
  "positionalValue (s @ [c]) = 26 * positionalValue s + letterCode c"
  by (induction s) (simp_all add: algebra_simps)

lemma positionalValue_nonneg: "list_all isLowerLetter s \<Longrightarrow> 0 \<le> positionalValue s"
  by (induction s) (simp_all add: isLowerLetter_def)

lemma positionalValue_pos:
  "list_all isLowerLetter s \<Longrightarrow> s \<noteq> [] \<Longrightarrow> 0 < positionalValue s"
proof (induction s)
  case Nil
  then show ?case by simp
next
  case (Cons c cs)
  then have "0 < letterCode c * 26 ^ length cs" by (simp add: isLowerLetter_def)
  moreover from Cons.prems have "0 \<le> positionalValue cs"
    by (simp add: positionalValue_nonneg)
  ultimately show ?case by simp
qed

lemma contribution_exact:
  assumes "1 \<le> k" and "k * 26 ^ p \<le> 2 ^ 53"
  shows "timesNumber k (Math_pow 26 p) = Num (k * 26 ^ p)"
proof -
  have p0: "(0::int) \<le> 26 ^ p" by simp
  have "(1::int) * 26 ^ p \<le> k * 26 ^ p" using assms(1) by (intro mult_right_mono) simp_all
  then have "(26::int) ^ p \<le> k * 26 ^ p" by simp
  then have pb: "(26::int) ^ p \<le> 2 ^ 53" using assms(2) by (rule order_trans)
  have "Math_pow 26 p = Num (26 ^ p)"
    unfolding Math_pow_def using p0 pb by (rule toNumber_exact)
  moreover have "toNumber (k * 26 ^ p) = Num (k * 26 ^ p)"
    using assms by (intro toNumber_exact) simp_all
  ultimately show ?thesis by (simp add: timesNumber_def)
qed

lemma base26_loop_exact:
  assumes "list_all isLowerLetter s" and "0 \<le> v" and "v + positionalValue s \<le> 2 ^ 53"
  shows "base26_loop s (Num v) = Inr (Num (v + positionalValue s))"
  using assms
proof (induction s arbitrary: v)
  case Nil
  then show ?case by simp
next
  case (Cons c cs)
  define k where "k = letterCode c"
  define t where "t = k * 26 ^ length cs"
  from Cons.prems(1) have cs: "list_all isLowerLetter cs" by simp
  from Cons.prems(1) have k: "1 \<le> k" "k \<le> 26"
    by (simp_all add: isLowerLetter_def k_def)
  have rest: "0 \<le> positionalValue cs" using cs by (rule positionalValue_nonneg)
  have t0: "0 \<le> t" using k by (simp add: t_def)
  have sum: "v + t + positionalValue cs \<le> 2 ^ 53"
    using Cons.prems(3) by (simp add: t_def k_def)
  have tb: "t \<le> 2 ^ 53" using sum rest Cons.prems(2) by linarith
  have con: "timesNumber k (Math_pow 26 (length cs)) = Num t"
    unfolding t_def using k(1) tb[unfolded t_def] by (rule contribution_exact)
  have vt: "v + t \<le> 2 ^ 53" using sum rest by linarith
  have pl: "plusNumber (Num v) (Num t) = Num (v + t)"
    using Cons.prems(2) t0 vt by (simp add: plusNumber_def toNumber_exact)
  have ih: "base26_loop cs (Num (v + t)) = Inr (Num (v + t + positionalValue cs))"
    using cs Cons.prems(2) t0 sum by (intro Cons.IH) simp_all
  have "base26_loop (c # cs) (Num v) = base26_loop cs (Num (v + t))"
    using k con pl by (simp add: Let_def k_def[symmetric])
  with ih show ?case by (simp add: t_def k_def)
qed

lemma standard_loop_step:
  assumes "0 < n" and "n \<le> 2 ^ 53"
  shows "standard_loop n acc
         = standard_loop ((n - 1) div 26) (fromLetterCode ((n - 1) mod 26 + 1) # acc)"
proof -
  have r: "roundToDouble (n - 1) = n - 1"
    using assms by (intro roundToDouble_exact) simp_all
  have q: "floorDiv26 (n - 1) = (n - 1) div 26"
    using assms by (intro floorDiv26_exact) simp_all
  show ?thesis
    using assms(1) by (subst standard_loop.simps) (simp add: Let_def r q)
qed

lemma standard_loop_stop: "\<not> 0 < n \<Longrightarrow> standard_loop n acc = acc"
  by (subst standard_loop.simps) simp

lemma standard_loop_acc:
  "n \<le> 2 ^ 53 \<Longrightarrow> standard_loop n acc = standard_loop n [] @ acc"
proof (induction "nat n" arbitrary: n acc rule: less_induct)
  case less
  show ?case
  proof (cases "0 < n")
    case True
    let ?m = "(n - 1) div 26"
    let ?c = "fromLetterCode ((n - 1) mod 26 + 1)"
    have lt: "nat ?m < nat n" using True by simp
    have mb: "?m \<le> 2 ^ 53" using True less(2) by simp
    have "standard_loop n acc = standard_loop ?m (?c # acc)"
      by (rule standard_loop_step[OF True less(2)])
    also have "\<dots> = standard_loop ?m [] @ (?c # acc)"
      by (rule less(1)[OF lt mb])
    finally have a: "standard_loop n acc = standard_loop ?m [] @ (?c # acc)" .
    have "standard_loop n [] = standard_loop ?m [?c]"
      by (rule standard_loop_step[OF True less(2)])
    also have "\<dots> = standard_loop ?m [] @ [?c]"
      by (rule less(1)[OF lt mb])
    finally have "standard_loop n [] @ acc = standard_loop ?m [] @ (?c # acc)" by simp
    with a show ?thesis by simp
  next
    case False
    then show ?thesis by (simp add: standard_loop_stop)
  qed
qed

lemma standard_loop_snoc:
  assumes "0 < n" and "n \<le> 2 ^ 53"
  shows "standard_loop n []
         = standard_loop ((n - 1) div 26) [] @ [fromLetterCode ((n - 1) mod 26 + 1)]"
proof -
  have mb: "(n - 1) div 26 \<le> 2 ^ 53" using assms by simp
  show ?thesis
    using standard_loop_step[OF assms, of "[]"]
      standard_loop_acc[OF mb, of "[fromLetterCode ((n - 1) mod 26 + 1)]"] by simp
qed

lemma standard_loop_value:
  "0 \<le> n \<Longrightarrow> n \<le> 2 ^ 53 \<Longrightarrow>
   list_all isLowerLetter (standard_loop n []) \<and> positionalValue (standard_loop n []) = n"
proof (induction "nat n" arbitrary: n rule: less_induct)
  case less
  show ?case
  proof (cases "0 < n")
    case True
    let ?m = "(n - 1) div 26"
    let ?k = "(n - 1) mod 26 + 1"
    have lt: "nat ?m < nat n" and m0: "0 \<le> ?m" using True by simp_all
    have mb: "?m \<le> 2 ^ 53" using True less(3) by simp
    have k: "1 \<le> ?k" "?k \<le> 26" by simp_all
    have ih: "list_all isLowerLetter (standard_loop ?m []) \<and> positionalValue (standard_loop ?m []) = ?m"
      using less(1)[OF lt m0 mb] .
    have lc: "letterCode (fromLetterCode ?k) = ?k"
      using k by (rule letterCode_fromLetterCode)
    have "26 * ?m + ?k = n" by simp
    then show ?thesis
      using ih lc k
      by (simp add: standard_loop_snoc[OF True less(3)] positionalValue_snoc isLowerLetter_def)
  next
    case False
    with less(2) have "n = 0" by simp
    then show ?thesis by (simp add: standard_loop_stop)
  qed
qed

lemma standard_loop_nonempty: "0 < n \<Longrightarrow> n \<le> 2 ^ 53 \<Longrightarrow> standard_loop n [] \<noteq> []"
  by (simp add: standard_loop_snoc)

lemma standard_loop_encode_snoc:
  assumes "0 \<le> h" "1 \<le> k" "k \<le> 26" "26 * h + k \<le> 2 ^ 53"
  shows "standard_loop (26 * h + k) [] = standard_loop h [] @ [fromLetterCode k]"
proof -
  have pos: "0 < 26 * h + k" using assms by simp
  have e: "26 * h + k - 1 = (k - 1) + h * 26" by simp
  have "(26 * h + k - 1) div 26 = h" unfolding e using assms by simp
  moreover have "(26 * h + k - 1) mod 26 + 1 = k" unfolding e using assms by simp
  ultimately show ?thesis using standard_loop_snoc[OF pos assms(4)] by simp
qed

lemma fromLetterCode_letterCode: "isLowerLetter c \<Longrightarrow> fromLetterCode (letterCode c) = c"
  by (simp add: isLowerLetter_def fromLetterCode_def letterCode_def)

lemma standard_loop_positionalValue:
  "list_all isLowerLetter s \<Longrightarrow> positionalValue s \<le> 2 ^ 53
   \<Longrightarrow> standard_loop (positionalValue s) [] = s"
proof (induction s rule: rev_induct)
  case Nil
  then show ?case by (simp add: standard_loop_stop)
next
  case (snoc c s)
  then have s: "list_all isLowerLetter s" and c: "isLowerLetter c" by simp_all
  have b: "26 * positionalValue s + letterCode c \<le> 2 ^ 53"
    using snoc.prems(2) by (simp add: positionalValue_snoc)
  have p0: "0 \<le> positionalValue s" using s by (rule positionalValue_nonneg)
  have sb: "positionalValue s \<le> 2 ^ 53"
    using b p0 c by (simp add: isLowerLetter_def)
  have "standard_loop (26 * positionalValue s + letterCode c) [] =
        standard_loop (positionalValue s) [] @ [fromLetterCode (letterCode c)]"
    using c p0 b
    by (intro standard_loop_encode_snoc) (simp_all add: isLowerLetter_def)
  then show ?case
    using snoc.IH[OF s sb] c by (simp add: positionalValue_snoc fromLetterCode_letterCode)
qed

lemmas codec_eval =
  calculateBijectiveBase26Value_def calculateRepeatedLettersValue_def repeatedBaseValue_def
  toLowerCase_def toLowerCase_char_def letterCode_def

text \<open>
  Claim C2 says that decoding the encoding of every integer \<open>v \<ge> 1\<close> gives \<open>v\<close> back. The
  number $2^{53} + 2$ is a value of the code, and its marker decodes to $2^{53}$: the
  decrement of the encoder rounds $2^{53} + 1$ down. In the other direction the marker of
  twelve \<open>z\<close> decodes to a number whose marker has thirteen letters.
\<close>

theorem C2_alphabetical_roundtrip_counterexample:
  "toNumber (2 ^ 53 + 2) = Num (2 ^ 53 + 2)
   \<and> generateStandardAlphabeticalMarker (2 ^ 53 + 2) = Inr ''bktxhsoghkkg''
   \<and> calculateBijectiveBase26Value ''bktxhsoghkkg'' = Inr (Num (2 ^ 53))
   \<and> calculateBijectiveBase26Value ''bktxhsoghkkg'' \<noteq> Inr (Num (2 ^ 53 + 2))
   \<and> calculateBijectiveBase26Value ''zzzzzzzzzzzz'' = Inr (Num 99246114928149472)
   \<and> generateStandardAlphabeticalMarker 99246114928149472 = Inr ''aaaaaaaaaaaak''"
proof -
  have a: "toNumber (2 ^ 53 + 2) = Num (2 ^ 53 + 2)" by code_simp
  have b: "generateStandardAlphabeticalMarker (2 ^ 53 + 2) = Inr ''bktxhsoghkkg''"
    by code_simp
  have c: "calculateBijectiveBase26Value ''bktxhsoghkkg'' = Inr (Num (2 ^ 53))" by code_simp
  have d: "calculateBijectiveBase26Value ''zzzzzzzzzzzz'' = Inr (Num 99246114928149472)"
    by code_simp
  have e: "generateStandardAlphabeticalMarker 99246114928149472 = Inr ''aaaaaaaaaaaak''"
    by code_simp
  from a b c d e show ?thesis by simp
qed

text \<open>
  Claim C2, amended. The bijective base-26 decoder gives \<open>a = 1\<close>, \<open>z = 26\<close>, \<open>aa = 27\<close>,
  \<open>az = 52\<close>, \<open>ba = 53\<close>. For every integer \<open>v\<close> from 1 to $2^{53}$ the encoder returns a
  marker that decodes to \<open>v\<close>, and every non-empty string \<open>m\<close> of lower-case letters whose
  value is at most $2^{53}$ decodes to that value \<open>w \<ge> 1\<close>, which encodes back to \<open>m\<close>: on
  the integers that the numbers of the code represent without rounding, the two functions
  are mutually inverse.
\<close>

theorem C2_alphabetical_roundtrip:
  "calculateBijectiveBase26Value ''a'' = Inr (Num 1)
   \<and> calculateBijectiveBase26Value ''z'' = Inr (Num 26)
   \<and> calculateBijectiveBase26Value ''aa'' = Inr (Num 27)
   \<and> calculateBijectiveBase26Value ''az'' = Inr (Num 52)
   \<and> calculateBijectiveBase26Value ''ba'' = Inr (Num 53)
   \<and> (1 \<le> v \<and> v \<le> 2 ^ 53 \<longrightarrow>
        (\<exists>mk. generateStandardAlphabeticalMarker v = Inr mk
              \<and> calculateBijectiveBase26Value mk = Inr (Num v)))
   \<and> (m \<noteq> [] \<and> list_all isLowerLetter m \<and> positionalValue m \<le> 2 ^ 53 \<longrightarrow>
        (\<exists>w. calculateBijectiveBase26Value m = Inr (Num w) \<and> w = positionalValue m \<and> 1 \<le> w
             \<and> generateStandardAlphabeticalMarker w = Inr m))"
proof -
  have t1: "calculateBijectiveBase26Value ''a'' = Inr (Num 1)" by code_simp
  have t2: "calculateBijectiveBase26Value ''z'' = Inr (Num 26)" by code_simp
  have t3: "calculateBijectiveBase26Value ''aa'' = Inr (Num 27)" by code_simp
  have t4: "calculateBijectiveBase26Value ''az'' = Inr (Num 52)" by code_simp
  have t5: "calculateBijectiveBase26Value ''ba'' = Inr (Num 53)" by code_simp
  have r1: "1 \<le> v \<and> v \<le> 2 ^ 53 \<longrightarrow>
        (\<exists>mk. generateStandardAlphabeticalMarker v = Inr mk
              \<and> calculateBijectiveBase26Value mk = Inr (Num v))"
  proof
    assume h: "1 \<le> v \<and> v \<le> 2 ^ 53"
    let ?mk = "standard_loop v []"
    from h have v0: "0 \<le> v" and vb: "v \<le> 2 ^ 53" and vn: "v \<noteq> 0" by simp_all
    have l: "list_all isLowerLetter ?mk" and p: "positionalValue ?mk = v"
      using standard_loop_value[OF v0 vb] by simp_all
    have enc: "generateStandardAlphabeticalMarker v = Inr ?mk"
      using h by (simp add: generateStandardAlphabeticalMarker_def)
    have "base26_loop ?mk (Num 0) = Inr (Num (0 + positionalValue ?mk))"
      using l vb by (intro base26_loop_exact) (simp_all add: p)
    then have dec: "calculateBijectiveBase26Value ?mk = Inr (Num v)"
      using l vn by (simp add: calculateBijectiveBase26Value_def toLowerCase_lower p)
    from enc dec
    show "\<exists>mk. generateStandardAlphabeticalMarker v = Inr mk
              \<and> calculateBijectiveBase26Value mk = Inr (Num v)" by blast
  qed
  have r2: "m \<noteq> [] \<and> list_all isLowerLetter m \<and> positionalValue m \<le> 2 ^ 53 \<longrightarrow>
        (\<exists>w. calculateBijectiveBase26Value m = Inr (Num w) \<and> w = positionalValue m \<and> 1 \<le> w
             \<and> generateStandardAlphabeticalMarker w = Inr m)"
  proof
    assume h: "m \<noteq> [] \<and> list_all isLowerLetter m \<and> positionalValue m \<le> 2 ^ 53"
    let ?w = "positionalValue m"
    from h have w: "0 < ?w" by (simp add: positionalValue_pos)
    have "base26_loop m (Num 0) = Inr (Num (0 + ?w))"
      using h by (intro base26_loop_exact) simp_all
    then have dec2: "calculateBijectiveBase26Value m = Inr (Num ?w)"
      using h w by (simp add: calculateBijectiveBase26Value_def toLowerCase_lower)
    have enc2: "generateStandardAlphabeticalMarker ?w = Inr m"
      using h w by (simp add: generateStandardAlphabeticalMarker_def standard_loop_positionalValue)
    from dec2 enc2 w
    show "\<exists>w. calculateBijectiveBase26Value m = Inr (Num w) \<and> w = positionalValue m \<and> 1 \<le> w
             \<and> generateStandardAlphabeticalMarker w = Inr m" by simp
  qed
  from t1 t2 t3 t4 t5 r1 r2 show ?thesis by blast
qed

theorem C2_alphabetical_roundtrip_witness:
  "(1::int) \<le> 2 ^ 53
   \<and> (\<exists>mk. generateStandardAlphabeticalMarker (2 ^ 53) = Inr mk
          \<and> calculateBijectiveBase26Value mk = Inr (Num (2 ^ 53)))
   \<and> ''zz'' \<noteq> [] \<and> list_all isLowerLetter ''zz'' \<and> positionalValue ''zz'' \<le> 2 ^ 53
   \<and> (\<exists>w. calculateBijectiveBase26Value ''zz'' = Inr (Num w) \<and> w = positionalValue ''zz''
          \<and> 1 \<le> w \<and> generateStandardAlphabeticalMarker w = Inr ''zz'')"
proof -
  have h: "''zz'' \<noteq> [] \<and> list_all isLowerLetter ''zz'' \<and> positionalValue ''zz'' \<le> 2 ^ 53"
    by (simp add: isLowerLetter_def letterCode_def)
  from h C2_alphabetical_roundtrip[of "2 ^ 53" "''zz''"] show ?thesis by simp
qed

subsection \<open>Repeated letters\<close>

lemma repeated_loop_result:
  "1 \<le> len \<Longrightarrow> len \<le> 10 \<Longrightarrow> baseValue = 26 * (int len - 1) \<Longrightarrow> baseValue < v \<Longrightarrow>
   repeated_loop v baseValue len =
     (if v \<le> 260 then Inr (26 * ((v - 1) div 26), nat ((v - 1) div 26) + 1)
      else Inl RepeatedLettersTooLarge)"
proof (induction v baseValue len rule: repeated_loop.induct)
  case (1 val baseValue len)
  note unfold = repeated_loop.simps[of val baseValue len]
  show ?case
  proof (cases "val \<le> baseValue + 26")
    case True
    define q where "q = val - 1 - baseValue"
    have q: "0 \<le> q" "q < 26" using True "1.prems" by (simp_all add: q_def)
    have "val - 1 = q + (int len - 1) * 26" using "1.prems" by (simp add: q_def)
    then have "(val - 1) div 26 = (q + (int len - 1) * 26) div 26" by simp
    also have "\<dots> = int len - 1" using q by simp
    finally have d: "(val - 1) div 26 = int len - 1" .
    have le: "val \<le> 260" using True "1.prems" by simp
    have "repeated_loop val baseValue len = Inr (baseValue, len)"
      using True "1.prems" unfold by simp
    moreover have "26 * ((val - 1) div 26) = baseValue" using d "1.prems" by simp
    moreover have "nat ((val - 1) div 26) + 1 = len" using d "1.prems" by simp
    ultimately show ?thesis using le by simp
  next
    case False
    show ?thesis
    proof (cases "len = 10")
      case True
      have "repeated_loop val baseValue len = Inl RepeatedLettersTooLarge"
        using False True unfold by simp
      moreover have "\<not> val \<le> 260" using False True "1.prems" by simp
      ultimately show ?thesis by simp
    next
      case ne: False
      have len: "len \<le> 10" using "1.prems" by simp
      have "repeated_loop val baseValue len = repeated_loop val (baseValue + 26) (len + 1)"
        using False ne len unfold by simp
      moreover have "repeated_loop val (baseValue + 26) (len + 1) =
         (if val \<le> 260 then Inr (26 * ((val - 1) div 26), nat ((val - 1) div 26) + 1)
          else Inl RepeatedLettersTooLarge)"
      proof (rule "1.IH"[OF len False ne])
        show "1 \<le> len + 1" by simp
        show "len + 1 \<le> 10" using ne len by simp
        show "baseValue + 26 = 26 * (int (len + 1) - 1)" using "1.prems" by simp
        show "baseValue + 26 < val" using False by simp
      qed
      ultimately show ?thesis by simp
    qed
  qed
qed

lemma generateRepeatedLettersMarker_eq:
  "generateRepeatedLettersMarker v =
     (if v < 1 then Inl AlphabeticalValueOutOfRange
      else if v \<le> 260
      then Inr (replicate (nat ((v - 1) div 26) + 1) (fromLetterCode (v - 26 * ((v - 1) div 26))))
      else Inl RepeatedLettersTooLarge)"
proof (cases "v < 1")
  case True
  then show ?thesis by (simp add: generateRepeatedLettersMarker_def)
next
  case False
  then have "repeated_loop v 0 1 =
     (if v \<le> 260 then Inr (26 * ((v - 1) div 26), nat ((v - 1) div 26) + 1)
      else Inl RepeatedLettersTooLarge)"
    by (intro repeated_loop_result) simp_all
  then show ?thesis using False by (simp add: generateRepeatedLettersMarker_def)
qed

text \<open>
  Claim C10. The repeated-letters encoder returns a marker exactly for the values 1 to 260;
  for every value from 261 on it throws \<open>Value too large for repeated letters mode\<close>; for a
  value in range the marker is one lower-case letter repeated 1 to 10 times.
\<close>

theorem C10_repeated_letters_encode_range:
  "(\<exists>m. generateRepeatedLettersMarker v = Inr m) = (1 \<le> v \<and> v \<le> 260)
   \<and> (261 \<le> v \<longrightarrow> generateRepeatedLettersMarker v = Inl RepeatedLettersTooLarge)
   \<and> (1 \<le> v \<and> v \<le> 260 \<longrightarrow>
        (\<exists>len c. generateRepeatedLettersMarker v = Inr (replicate len c)
                 \<and> 1 \<le> len \<and> len \<le> 10 \<and> isLowerLetter c))"
proof -
  have a: "(\<exists>m. generateRepeatedLettersMarker v = Inr m) = (1 \<le> v \<and> v \<le> 260)"
    by (simp add: generateRepeatedLettersMarker_eq)
  have b: "261 \<le> v \<longrightarrow> generateRepeatedLettersMarker v = Inl RepeatedLettersTooLarge"
    by (simp add: generateRepeatedLettersMarker_eq)
  have c: "1 \<le> v \<and> v \<le> 260 \<longrightarrow>
        (\<exists>len c. generateRepeatedLettersMarker v = Inr (replicate len c)
                 \<and> 1 \<le> len \<and> len \<le> 10 \<and> isLowerLetter c)"
  proof
    assume v: "1 \<le> v \<and> v \<le> 260"
    let ?d = "(v - 1) div 26"
    let ?k = "v - 26 * ?d"
    have d: "0 \<le> ?d" "?d \<le> 9" using v by arith+
    have "?k = (v - 1) mod 26 + 1" by (simp add: minus_mult_div_eq_mod algebra_simps)
    then have k: "1 \<le> ?k" "?k \<le> 26" by simp_all
    have "isLowerLetter (fromLetterCode ?k)"
      using k by (simp add: isLowerLetter_def letterCode_fromLetterCode)
    moreover have "1 \<le> nat ?d + 1 \<and> nat ?d + 1 \<le> 10" using d by simp
    moreover have "generateRepeatedLettersMarker v = Inr (replicate (nat ?d + 1) (fromLetterCode ?k))"
      using v by (simp add: generateRepeatedLettersMarker_eq)
    ultimately show "\<exists>len c. generateRepeatedLettersMarker v = Inr (replicate len c)
                 \<and> 1 \<le> len \<and> len \<le> 10 \<and> isLowerLetter c" by blast
  qed
  from a b c show ?thesis by blast
qed

theorem C10_repeated_letters_encode_range_witness:
  "generateRepeatedLettersMarker 260 = Inr ''zzzzzzzzzz''
   \<and> generateRepeatedLettersMarker 261 = Inl RepeatedLettersTooLarge
   \<and> \<not> (\<exists>m. generateRepeatedLettersMarker 261 = Inr m)"
proof -
  have "generateRepeatedLettersMarker 260 = Inr ''zzzzzzzzzz''"
    by code_simp
  with C10_repeated_letters_encode_range[of 261] C10_repeated_letters_encode_range[of 260]
  show ?thesis by simp
qed

lemma fold_add26: "fold (\<lambda>len baseValue. baseValue + 26) xs a = a + 26 * int (length xs)"
  by (induction xs arbitrary: a) simp_all

lemma repeatedBaseValue_eq: "1 \<le> n \<Longrightarrow> repeatedBaseValue n = 26 * (int n - 1)"
  by (simp add: repeatedBaseValue_def fold_add26 of_nat_diff)

lemma calculateRepeatedLettersValue_run:
  assumes "toLowerCase m = replicate L c" and "1 \<le> L" and "isLowerLetter c"
  shows "calculateRepeatedLettersValue m = Inr (26 * (int L - 1) + letterCode c)"
proof -
  obtain k where L: "L = Suc k" using assms(2) by (cases L) simp_all
  have low: "toLowerCase m = c # replicate k c" using assms(1) L by simp
  have "repeatedBaseValue (Suc k) = 26 * int k"
    using repeatedBaseValue_eq[of "Suc k"] by simp
  then show ?thesis
    using assms(3) L
    by (simp add: calculateRepeatedLettersValue_def low isLowerLetter_def list_all_iff)
qed

lemma calculateRepeatedLettersValue_mixed:
  assumes "toLowerCase m = c # rest" and "\<not> list_all (\<lambda>x. x = c) rest"
  shows "calculateRepeatedLettersValue m = Inl RepeatedLettersMixed"
  using assms by (simp add: calculateRepeatedLettersValue_def)

lemma base26_single:
  assumes "toLowerCase m = [c]" and "isLowerLetter c"
  shows "calculateBijectiveBase26Value m = Inr (Num (letterCode c))"
proof -
  have "base26_loop [c] (Num 0) = Inr (Num (0 + positionalValue [c]))"
    using assms(2) by (intro base26_loop_exact) (simp_all add: isLowerLetter_def)
  with assms show ?thesis
    by (simp add: calculateBijectiveBase26Value_def isLowerLetter_def)
qed

text \<open>
  Claim C7. In repeated-letters mode \<open>aa\<close>, \<open>zz\<close>, \<open>aaa\<close> decode to 27, 52, 53 and \<open>ab\<close>
  fails. A marker that is, up to letter case, a run of \<open>L \<ge> 1\<close> copies of one letter decodes
  to \<open>26 * (L - 1)\<close> plus the position 1..26 of the letter; a marker of two or more characters
  that are, up to letter case, not all the same fails. Both hold for the private decoder
  and for \<open>getValue\<close> in repeated-letters mode on a nested-alphabetical line.
\<close>

theorem C7_repeated_letters_decode:
  "calculateRepeatedLettersValue ''aa'' = Inr 27
   \<and> calculateRepeatedLettersValue ''zz'' = Inr 52
   \<and> calculateRepeatedLettersValue ''aaa'' = Inr 53
   \<and> calculateRepeatedLettersValue ''ab'' = Inl RepeatedLettersMixed
   \<and> (toLowerCase m = replicate L c \<and> 1 \<le> L \<and> isLowerLetter c \<longrightarrow>
        calculateRepeatedLettersValue m = Inr (26 * (int L - 1) + letterCode c)
        \<and> getValue \<lparr>type = NestedAlphabetical, indentation = ind, marker = m,
                      separator = sep, content = cnt\<rparr> True
            = Inr (Num (26 * (int L - 1) + letterCode c)))
   \<and> (toLowerCase m = c # rest \<and> rest \<noteq> [] \<and> \<not> list_all (\<lambda>x. x = c) rest \<longrightarrow>
        calculateRepeatedLettersValue m = Inl RepeatedLettersMixed
        \<and> getValue \<lparr>type = NestedAlphabetical, indentation = ind, marker = m,
                      separator = sep, content = cnt\<rparr> True
            = Inl RepeatedLettersMixed)"
proof -
  have t1: "calculateRepeatedLettersValue ''aa'' = Inr 27" by (simp add: codec_eval)
  have t2: "calculateRepeatedLettersValue ''zz'' = Inr 52" by (simp add: codec_eval)
  have t3: "calculateRepeatedLettersValue ''aaa'' = Inr 53" by (simp add: codec_eval)
  have t4: "calculateRepeatedLettersValue ''ab'' = Inl RepeatedLettersMixed"
    by (simp add: codec_eval)
  let ?ln = "\<lparr>type = NestedAlphabetical, indentation = ind, marker = m,
                      separator = sep, content = cnt\<rparr>"
  have run: "toLowerCase m = replicate L c \<and> 1 \<le> L \<and> isLowerLetter c \<longrightarrow>
        calculateRepeatedLettersValue m = Inr (26 * (int L - 1) + letterCode c)
        \<and> getValue ?ln True = Inr (Num (26 * (int L - 1) + letterCode c))"
  proof
    assume h: "toLowerCase m = replicate L c \<and> 1 \<le> L \<and> isLowerLetter c"
    then have r: "calculateRepeatedLettersValue m = Inr (26 * (int L - 1) + letterCode c)"
      by (simp add: calculateRepeatedLettersValue_run)
    have "getValue ?ln True = Inr (Num (26 * (int L - 1) + letterCode c))"
    proof (cases "L = 1")
      case True
      with h have "calculateBijectiveBase26Value m = Inr (Num (letterCode c))"
        by (simp add: base26_single)
      with True h show ?thesis
        by (simp add: getValue_def calculateAlphabeticalValue_def)
    next
      case False
      with h have "length (toLowerCase m) > 1" by simp
      with r show ?thesis
        by (simp add: getValue_def calculateAlphabeticalValue_def)
    qed
    with r show "calculateRepeatedLettersValue m = Inr (26 * (int L - 1) + letterCode c)
        \<and> getValue ?ln True = Inr (Num (26 * (int L - 1) + letterCode c))" by simp
  qed
  have mixed: "toLowerCase m = c # rest \<and> rest \<noteq> [] \<and> \<not> list_all (\<lambda>x. x = c) rest \<longrightarrow>
        calculateRepeatedLettersValue m = Inl RepeatedLettersMixed
        \<and> getValue ?ln True = Inl RepeatedLettersMixed"
  proof
    assume h: "toLowerCase m = c # rest \<and> rest \<noteq> [] \<and> \<not> list_all (\<lambda>x. x = c) rest"
    then have r: "calculateRepeatedLettersValue m = Inl RepeatedLettersMixed"
      by (simp add: calculateRepeatedLettersValue_mixed)
    from h have "length (toLowerCase m) > 1" by (cases rest) simp_all
    with r show "calculateRepeatedLettersValue m = Inl RepeatedLettersMixed
        \<and> getValue ?ln True = Inl RepeatedLettersMixed"
      by (simp add: getValue_def calculateAlphabeticalValue_def)
  qed
  from t1 t2 t3 t4 run mixed show ?thesis by blast
qed

theorem C7_repeated_letters_decode_witness:
  "calculateRepeatedLettersValue ''CCC'' = Inr (26 * (int 3 - 1) + letterCode CHR ''c'')
   \<and> getValue \<lparr>type = NestedAlphabetical, indentation = [], marker = ''CCC'',
                separator = Dot, content = []\<rparr> True = Inr (Num 55)
   \<and> calculateRepeatedLettersValue ''abc'' = Inl RepeatedLettersMixed
   \<and> getValue \<lparr>type = NestedAlphabetical, indentation = [], marker = ''abc'',
                separator = Dot, content = []\<rparr> True = Inl RepeatedLettersMixed"
proof -
  have low: "toLowerCase ''CCC'' = ''ccc''" by code_simp
  have a: "toLowerCase ''CCC'' = replicate 3 CHR ''c'' \<and> 1 \<le> (3::nat) \<and> isLowerLetter CHR ''c''"
    unfolding low by (simp add: isLowerLetter_def letterCode_def numeral_3_eq_3)
  have b: "toLowerCase ''abc'' = CHR ''a'' # ''bc'' \<and> ''bc'' \<noteq> []
           \<and> \<not> list_all (\<lambda>x. x = CHR ''a'') ''bc''"
    by (simp add: toLowerCase_def toLowerCase_char_def)
  from a C7_repeated_letters_decode[of "''CCC''" 3 "CHR ''c''" "[]" Dot "[]"]
       b C7_repeated_letters_decode[of "''abc''" _ "CHR ''a''" "[]" Dot "[]" "''bc''"]
  show ?thesis by (simp add: letterCode_def)
qed

subsection \<open>Classification\<close>

lemma parseInt_c: "parseInt ''c'' = None" by code_simp
lemma roman_c: "isValidRomanNumeral ''c''" by code_simp

lemma toNumber_atLeast:
  assumes "0 \<le> b" and "b \<le> 2 ^ 53" and "b \<le> x"
  shows "numAtLeast (toNumber x) b"
proof (cases "x \<le> 2 ^ 53")
  case True
  with assms have "toNumber x = Num x" by (intro toNumber_exact) simp_all
  with assms(3) show ?thesis by (simp add: numAtLeast_def)
next
  case False
  then have "2 ^ 53 \<le> x" by simp
  then have "2 ^ 53 \<le> roundToDouble x" by (rule roundToDouble_ge)
  with assms(2) have b: "b \<le> roundToDouble x" by simp
  have "0 \<le> roundToDouble x" using b assms(1) by simp
  then have "\<not> roundToDouble x \<le> - (2 ^ 1024)" by simp
  with b show ?thesis by (simp add: toNumber_def Let_def numAtLeast_def)
qed

lemma contribution_atLeast:
  assumes "1 \<le> k" and "0 \<le> b" and "b \<le> 2 ^ 53" and "b \<le> 26 ^ p"
  shows "numAtLeast (timesNumber k (Math_pow 26 p)) b"
proof -
  have pw: "numAtLeast (Math_pow 26 p) b"
    unfolding Math_pow_def using assms(2-4) by (rule toNumber_atLeast)
  show ?thesis
  proof (cases "Math_pow 26 p")
    case (Num x)
    with pw have x: "b \<le> x" by (simp add: numAtLeast_def)
    with assms(2) have "0 \<le> x" by simp
    then have "1 * x \<le> k * x" using assms(1) by (intro mult_right_mono) simp_all
    with x have "b \<le> k * x" by simp
    with assms(2,3) have "numAtLeast (toNumber (k * x)) b" by (intro toNumber_atLeast)
    with Num show ?thesis by (simp add: timesNumber_def)
  next
    case Infinity
    with assms(1) show ?thesis by (simp add: timesNumber_def numAtLeast_def)
  qed (use pw in \<open>simp_all add: numAtLeast_def\<close>)
qed

lemma plusNumber_atLeast:
  assumes "numAtLeast a x" and "numAtLeast c y" and "0 \<le> x + y" and "x + y \<le> 2 ^ 53"
  shows "numAtLeast (plusNumber a c) (x + y)"
proof (cases a)
  case a: (Num a')
  show ?thesis
  proof (cases c)
    case c: (Num c')
    from assms(1,2) a c have "x + y \<le> a' + c'" by (simp add: numAtLeast_def)
    with assms(3,4) have "numAtLeast (toNumber (a' + c')) (x + y)" by (intro toNumber_atLeast)
    with a c show ?thesis by (simp add: plusNumber_def)
  qed (use assms(2) a in \<open>simp_all add: numAtLeast_def plusNumber_def\<close>)
next
  case a: Infinity
  show ?thesis
    using assms(2) a by (cases c) (simp_all add: numAtLeast_def plusNumber_def)
qed (use assms(1) in \<open>simp_all add: numAtLeast_def\<close>)

lemma base26_loop_result_letters:
  "base26_loop s v = Inr w \<Longrightarrow> list_all isLowerLetter s"
proof (induction s arbitrary: v)
  case Nil
  then show ?case by simp
next
  case (Cons c cs)
  from Cons.prems have c: "isLowerLetter c"
    by (simp add: isLowerLetter_def Let_def split: if_splits)
  from Cons.prems c obtain v' where "base26_loop cs v' = Inr w"
    by (simp add: isLowerLetter_def Let_def)
  then have "list_all isLowerLetter cs" by (rule Cons.IH)
  with c show ?case by simp
qed

lemma base26_loop_atLeast:
  assumes "base26_loop s v = Inr w" and "numAtLeast v b" and "0 \<le> b" and "b \<le> 2 ^ 53"
  shows "numAtLeast w b"
  using assms(1,2)
proof (induction s arbitrary: v)
  case Nil
  then show ?case by simp
next
  case (Cons c cs)
  define k where "k = letterCode c"
  define t where "t = timesNumber k (Math_pow 26 (length cs))"
  from Cons.prems(1) have k: "1 \<le> k" "k \<le> 26"
    by (simp_all add: k_def Let_def split: if_splits)
  with Cons.prems(1) have r: "base26_loop cs (plusNumber v t) = Inr w"
    by (simp add: Let_def k_def[symmetric] t_def)
  have "numAtLeast t 0" unfolding t_def using k(1) by (intro contribution_atLeast) simp_all
  with Cons.prems(2) have "numAtLeast (plusNumber v t) (b + 0)"
    using assms(3,4) by (intro plusNumber_atLeast) simp_all
  then have "numAtLeast (plusNumber v t) b" by simp
  with r show ?case by (rule Cons.IH)
qed

lemma base26_loop_two_letters:
  assumes "base26_loop (c # d # rest) (Num 0) = Inr w"
  shows "numAtLeast w 27"
proof -
  define k where "k = letterCode c"
  define j where "j = letterCode d"
  define t where "t = timesNumber k (Math_pow 26 (Suc (length rest)))"
  define u where "u = timesNumber j (Math_pow 26 (length rest))"
  from assms have k: "1 \<le> k" "k \<le> 26"
    by (simp_all add: k_def Let_def split: if_splits)
  with assms have r1: "base26_loop (d # rest) (plusNumber (Num 0) t) = Inr w"
    by (simp add: Let_def k_def[symmetric] t_def)
  then have j: "1 \<le> j" "j \<le> 26"
    by (simp_all add: j_def Let_def split: if_splits)
  with r1 have r2: "base26_loop rest (plusNumber (plusNumber (Num 0) t) u) = Inr w"
    by (simp add: Let_def j_def[symmetric] u_def)
  have "(26::int) ^ 1 \<le> 26 ^ Suc (length rest)" by (intro power_increasing) simp_all
  then have t: "numAtLeast t 26"
    unfolding t_def using k(1) by (intro contribution_atLeast) simp_all
  have z: "numAtLeast (Num 0) 0" by (simp add: numAtLeast_def)
  have "numAtLeast (plusNumber (Num 0) t) (0 + 26)"
    using z t by (rule plusNumber_atLeast) simp_all
  then have a: "numAtLeast (plusNumber (Num 0) t) 26" by simp
  have u: "numAtLeast u 1"
    unfolding u_def using j(1) by (intro contribution_atLeast) simp_all
  have "numAtLeast (plusNumber (plusNumber (Num 0) t) u) (26 + 1)"
    using a u by (rule plusNumber_atLeast) simp_all
  then have "numAtLeast (plusNumber (plusNumber (Num 0) t) u) 27" by simp
  with r2 show ?thesis by (rule base26_loop_atLeast) simp_all
qed

lemma base26_small_single:
  assumes "calculateBijectiveBase26Value m = Inr (Num w)" and "w \<le> 26"
  shows "length m = 1"
proof -
  from assms(1) have u: "base26_loop (toLowerCase m) (Num 0) = Inr (Num w)" and w: "w \<noteq> 0"
    by (auto simp: calculateBijectiveBase26Value_def split: sum.splits if_splits)
  have "length (toLowerCase m) = 1"
  proof (cases "toLowerCase m")
    case Nil
    with u w show ?thesis by simp
  next
    case (Cons c cs)
    show ?thesis
    proof (cases cs)
      case Nil
      with Cons show ?thesis by simp
    next
      case (Cons d rest)
      with \<open>toLowerCase m = c # cs\<close> u have "numAtLeast (Num w) 27"
        by (intro base26_loop_two_letters[of c d rest]) simp
      with assms(2) show ?thesis by (simp add: numAtLeast_def)
    qed
  qed
  then show ?thesis by (simp add: toLowerCase_def)
qed

text \<open>
  Claim C4. With Roman and Alphabetical lists enabled (whatever the other settings), the
  marker \<open>c\<close> without context is classified Roman, and a Roman \<open>c\<close> has value 100. With a
  sibling context of type Alphabetical whose value is 2, the marker \<open>c\<close> is classified
  Alphabetical, and an Alphabetical \<open>c\<close> has value 3.
\<close>

theorem C4_classification_precedence:
  assumes "enableRomanLists settings" and "enableAlphabeticalLists settings"
  shows "determineListType settings ''c'' None = Some Roman
       \<and> getValue \<lparr>type = Roman, indentation = ind, marker = ''c'', separator = sep,
                     content = cnt\<rparr> rep = Inr (Num 100)
       \<and> (type ctx = Alphabetical \<and> getValue ctx rep = Inr (Num 2) \<longrightarrow>
            determineListType settings ''c'' (Some ctx) = Some Alphabetical
            \<and> getValue \<lparr>type = Alphabetical, indentation = ind, marker = ''c'', separator = sep,
                          content = cnt\<rparr> rep = Inr (Num 3))"
proof -
  have intr: "determineIntrinsicListType settings ''c'' = Some Roman"
    using assms by (simp add: determineIntrinsicListType_def parseInt_c roman_c)
  then have a: "determineListType settings ''c'' None = Some Roman"
    by (simp add: determineListType_def)
  have b: "getValue \<lparr>type = Roman, indentation = ind, marker = ''c'', separator = sep,
                     content = cnt\<rparr> rep = Inr (Num 100)"
    by (simp add: getValue_def calculateRomanValue_def toLowerCase_def toLowerCase_char_def
        romanMap_def)
  have c: "type ctx = Alphabetical \<and> getValue ctx rep = Inr (Num 2) \<longrightarrow>
            determineListType settings ''c'' (Some ctx) = Some Alphabetical
            \<and> getValue \<lparr>type = Alphabetical, indentation = ind, marker = ''c'', separator = sep,
                          content = cnt\<rparr> rep = Inr (Num 3)"
  proof
    assume h: "type ctx = Alphabetical \<and> getValue ctx rep = Inr (Num 2)"
    then have t: "type ctx = Alphabetical" and g: "getValue ctx rep = Inr (Num 2)" by simp_all
    from g have "calculateBijectiveBase26Value (marker ctx) = Inr (Num 2)"
      by (simp add: getValue_def t calculateAlphabeticalValue_def)
    then have "length (marker ctx) = 1" by (rule base26_small_single) simp
    with h intr have "determineListType settings ''c'' (Some ctx) = Some Alphabetical"
      by (simp add: determineListType_def)
    moreover have "calculateBijectiveBase26Value ''c'' = Inr (Num 3)" by code_simp
    then have "getValue \<lparr>type = Alphabetical, indentation = ind, marker = ''c'',
            separator = sep, content = cnt\<rparr> rep = Inr (Num 3)"
      by (simp add: getValue_def calculateAlphabeticalValue_def)
    ultimately show "determineListType settings ''c'' (Some ctx) = Some Alphabetical
            \<and> getValue \<lparr>type = Alphabetical, indentation = ind, marker = ''c'', separator = sep,
                          content = cnt\<rparr> rep = Inr (Num 3)" by simp
  qed
  from a b c show ?thesis by blast
qed

theorem C4_classification_precedence_witness:
  "enableRomanLists DEFAULT_SETTINGS \<and> enableAlphabeticalLists DEFAULT_SETTINGS
   \<and> determineListType DEFAULT_SETTINGS ''c'' None = Some Roman
   \<and> getValue \<lparr>type = Alphabetical, indentation = [], marker = ''b'', separator = Dot,
                content = '' x''\<rparr> False = Inr (Num 2)
   \<and> determineListType DEFAULT_SETTINGS ''c''
        (Some \<lparr>type = Alphabetical, indentation = [], marker = ''b'', separator = Dot,
                content = '' x''\<rparr>) = Some Alphabetical"
proof -
  have s: "enableRomanLists DEFAULT_SETTINGS" "enableAlphabeticalLists DEFAULT_SETTINGS"
    by (simp_all add: DEFAULT_SETTINGS_def)
  have v: "getValue \<lparr>type = Alphabetical, indentation = [], marker = ''b'', separator = Dot,
                content = '' x''\<rparr> False = Inr (Num 2)"
    by code_simp
  from C4_classification_precedence[OF s, where rep = False and ctx = "\<lparr>type = Alphabetical,
        indentation = [], marker = ''b'', separator = Dot, content = '' x''\<rparr>"] s v
  show ?thesis by simp
qed

subsection \<open>Roman numerals\<close>

lemma rems_lang: "set (rems r s) = {t. \<exists>p \<in> lang r. s = p @ t}"
proof (induction r arbitrary: s)
  case Eps
  show ?case by auto
next
  case (Lit c)
  show ?case by (cases s) auto
next
  case (Seq a b)
  show ?case by (auto simp: Seq) 
next
  case (Alt a b)
  show ?case by (auto simp: Alt)
next
  case (Opt a)
  show ?case by (auto simp: Opt)
qed

lemma test_anchored_lang: "test_anchored r s \<longleftrightarrow> s \<in> lang r"
  by (simp add: test_anchored_def rems_lang)

lemma lang_upTo3: "lang (upTo 3 (Lit c)) = {[], [c], [c, c], [c, c, c]}"
  by (auto simp: numeral_3_eq_3)

lemma lang_digitGroup:
  "lang (digitGroup one five ten) =
     {[], [one], [one, one], [one, one, one], [one, five], [five], [five, one],
      [five, one, one], [five, one, one, one], [one, ten]}"
  by (auto simp: digitGroup_def numeral_3_eq_3)

lemma upto9: "{d::nat. d \<le> 9} = {0, 1, 2, 3, 4, 5, 6, 7, 8, 9}"
  by auto

lemma upto3: "{d::nat. d \<le> 3} = {0, 1, 2, 3}"
  by auto

lemma romanDigit_image:
  "romanDigit one five ten ` {d. d \<le> 9} =
     {[], [one], [one, one], [one, one, one], [one, five], [five], [five, one],
      [five, one, one], [five, one, one, one], [one, ten]}"
  unfolding upto9 by (auto simp: romanDigit_def eval_nat_numeral)

lemma replicate_image: "(\<lambda>n. replicate n c) ` {d. d \<le> 3} = {[], [c], [c, c], [c, c, c]}"
  unfolding upto3 by (auto simp: eval_nat_numeral)

lemma lang_digitGroup_image:
  "lang (digitGroup one five ten) = romanDigit one five ten ` {d. d \<le> 9}"
  by (simp only: lang_digitGroup romanDigit_image)

lemma lang_upTo3_image: "lang (upTo 3 (Lit c)) = (\<lambda>n. replicate n c) ` {d. d \<le> 3}"
  by (simp only: lang_upTo3 replicate_image)

lemma lang_validRomanPattern:
  "s \<in> lang validRomanPattern \<longleftrightarrow>
     (\<exists>k h t u. k \<le> 3 \<and> h \<le> 9 \<and> t \<le> 9 \<and> u \<le> 9 \<and> s = canonicalRoman k h t u)"
  unfolding validRomanPattern_def lang.simps lang_digitGroup_image lang_upTo3_image
    canonicalRoman_def
  by (auto simp: image_iff)

lemma roman_while_lt: "r < v \<Longrightarrow> roman_while v s acc r = (acc, r)"
  by (subst roman_while.simps) simp

lemma roman_while_ge:
  "0 < v \<Longrightarrow> v \<le> r \<Longrightarrow> roman_while v s acc r = roman_while v s (acc @ s) (r - v)"
  by (subst roman_while.simps) simp

lemma roman_while_thousands:
  "0 \<le> q \<Longrightarrow> q < 1000 \<Longrightarrow>
   roman_while 1000 ''m'' acc (1000 * int k + q) = (acc @ replicate k CHR ''m'', q)"
proof (induction k arbitrary: acc)
  case 0
  then show ?case by (simp add: roman_while_lt)
next
  case (Suc k)
  have "roman_while 1000 ''m'' acc (1000 * int (Suc k) + q)
        = roman_while 1000 ''m'' (acc @ ''m'') (1000 * int k + q)"
    using Suc.prems by (subst roman_while_ge) (simp_all add: algebra_simps)
  also have "\<dots> = ((acc @ ''m'') @ replicate k CHR ''m'', q)"
    using Suc.prems by (rule Suc.IH)
  finally show ?case by (simp add: replicate_append_same)
qed

lemma nat_le9_cases:
  assumes "d \<le> (9::nat)"
  obtains "d = 0" | "d = 1" | "d = 2" | "d = 3" | "d = 4" | "d = 5" | "d = 6" | "d = 7"
    | "d = 8" | "d = 9"
proof -
  from assms have "d \<in> {d. d \<le> 9}" by simp
  then have "d \<in> {0, 1, 2, 3, 4, 5, 6, 7, 8, 9}" unfolding upto9 .
  with that show thesis by blast
qed

lemma roman_for_group:
  assumes "d \<le> 9" and "0 \<le> q" and "q < unit" 
  shows "roman_for ((9 * unit, [one, ten]) # (5 * unit, [five]) # (4 * unit, [one, five])
                     # (unit, [one]) # rest) acc (int d * unit + q)
         = roman_for rest (acc @ romanDigit one five ten d) q"
  using assms(1)
proof (cases rule: nat_le9_cases)
qed (use assms(2,3) in \<open>simp_all add: roman_while_lt roman_while_ge romanDigit_def eval_nat_numeral\<close>)

lemma roman_for_map:
  assumes "h \<le> 9" and "t \<le> 9" and "u \<le> 9"
  shows "roman_for romanNumeralMap [] (1000 * int k + 100 * int h + 10 * int t + int u)
         = canonicalRoman k h t u"
proof -
  let ?tens = "[(90, ''xc''), (50, ''l''), (40, ''xl''), (10, ''x''),
                (9, ''ix''), (5, ''v''), (4, ''iv''), (1::int, ''i'')]"
  let ?units = "[(9, ''ix''), (5, ''v''), (4, ''iv''), (1::int, ''i'')]"
  let ?hund = "(900, ''cm'') # (500, ''d'') # (400, ''cd'') # (100, ''c'') # ?tens"
  have q: "0 \<le> 100 * int h + 10 * int t + int u" "100 * int h + 10 * int t + int u < 1000"
    using assms by simp_all
  have "roman_while 1000 ''m'' [] (1000 * int k + (100 * int h + 10 * int t + int u))
        = ([] @ replicate k CHR ''m'', 100 * int h + 10 * int t + int u)"
    using q by (rule roman_while_thousands)
  then have s1: "roman_for romanNumeralMap [] (1000 * int k + 100 * int h + 10 * int t + int u)
        = roman_for ?hund (replicate k CHR ''m'') (int h * 100 + (10 * int t + int u))"
    by (simp add: romanNumeralMap_def algebra_simps)
  have s2: "roman_for ?hund (replicate k CHR ''m'') (int h * 100 + (10 * int t + int u))
        = roman_for ?tens (replicate k CHR ''m'' @ romanDigit CHR ''c'' CHR ''d'' CHR ''m'' h)
            (int t * 10 + int u)"
    using roman_for_group[of h "10 * int t + int u" 100 "CHR ''c''" "CHR ''m''" "CHR ''d''"
        ?tens "replicate k CHR ''m''"] assms
    by (simp add: algebra_simps)
  have s3: "roman_for ?tens (replicate k CHR ''m'' @ romanDigit CHR ''c'' CHR ''d'' CHR ''m'' h)
            (int t * 10 + int u)
        = roman_for ?units (replicate k CHR ''m'' @ romanDigit CHR ''c'' CHR ''d'' CHR ''m'' h
             @ romanDigit CHR ''x'' CHR ''l'' CHR ''c'' t) (int u * 1 + 0)"
    using roman_for_group[of t "int u" 10 "CHR ''x''" "CHR ''c''" "CHR ''l''" ?units
        "replicate k CHR ''m'' @ romanDigit CHR ''c'' CHR ''d'' CHR ''m'' h"] assms
    by simp
  have s4: "roman_for ?units (replicate k CHR ''m'' @ romanDigit CHR ''c'' CHR ''d'' CHR ''m'' h
             @ romanDigit CHR ''x'' CHR ''l'' CHR ''c'' t) (int u * 1 + 0)
        = canonicalRoman k h t u"
    using roman_for_group[of u 0 1 "CHR ''i''" "CHR ''x''" "CHR ''v''" "[]"
        "replicate k CHR ''m'' @ romanDigit CHR ''c'' CHR ''d'' CHR ''m'' h
             @ romanDigit CHR ''x'' CHR ''l'' CHR ''c'' t"] assms
    by (simp add: canonicalRoman_def)
  from s1 s2 s3 s4 show ?thesis by simp
qed

lemma decimal_digits:
  fixes N :: nat
  shows "N = 1000 * (N div 1000) + 100 * (N div 100 mod 10) + 10 * (N div 10 mod 10) + N mod 10"
proof -
  have a: "N = 10 * (N div 10) + N mod 10" by simp
  have h: "N div 100 = N div 10 div 10" using div_mult2_eq[of N 10 10] by simp
  have k: "N div 1000 = N div 100 div 10" using div_mult2_eq[of N 100 10] by simp
  have b: "N div 10 = 10 * (N div 100) + N div 10 mod 10"
    unfolding h by simp
  have c: "N div 100 = 10 * (N div 1000) + N div 100 mod 10"
    unfolding k by simp
  from a b c show ?thesis by linarith
qed

lemma generateRomanMarker_canonical:
  assumes "1 \<le> n"
  shows "generateRomanMarker n =
     Inr (canonicalRoman (nat n div 1000) (nat n div 100 mod 10) (nat n div 10 mod 10)
            (nat n mod 10))"
proof -
  let ?N = "nat n"
  have "n = int ?N" using assms by simp
  also have "\<dots> = int (1000 * (?N div 1000) + 100 * (?N div 100 mod 10)
                      + 10 * (?N div 10 mod 10) + ?N mod 10)"
    using decimal_digits[of ?N] by simp
  finally have n: "n = 1000 * int (?N div 1000) + 100 * int (?N div 100 mod 10)
                      + 10 * int (?N div 10 mod 10) + int (?N mod 10)" by simp
  have "roman_for romanNumeralMap [] n =
     canonicalRoman (?N div 1000) (?N div 100 mod 10) (?N div 10 mod 10) (?N mod 10)"
    by (subst n, rule roman_for_map) simp_all
  then show ?thesis using assms by (simp add: generateRomanMarker_def)
qed

lemma romanDigit_Nil: "romanDigit one five ten d = [] \<longleftrightarrow> d = 0"
  by (simp add: romanDigit_def)

lemma canonicalRoman_Nil: "canonicalRoman k h t u = [] \<longleftrightarrow> k = 0 \<and> h = 0 \<and> t = 0 \<and> u = 0"
  by (simp add: canonicalRoman_def romanDigit_Nil)

lemma romanDigit_set: "set (romanDigit one five ten d) \<subseteq> {one, five, ten}"
  by (auto simp: romanDigit_def)

lemma canonicalRoman_chars: "list_all (\<lambda>c. c \<in> set ''ivxlcdm'') (canonicalRoman k h t u)"
proof -
  have m: "set (replicate k CHR ''m'') \<subseteq> set ''ivxlcdm''" by auto
  have a: "set (romanDigit CHR ''c'' CHR ''d'' CHR ''m'' h) \<subseteq> set ''ivxlcdm''"
    by (rule subset_trans[OF romanDigit_set]) simp
  have b: "set (romanDigit CHR ''x'' CHR ''l'' CHR ''c'' t) \<subseteq> set ''ivxlcdm''"
    by (rule subset_trans[OF romanDigit_set]) simp
  have c: "set (romanDigit CHR ''i'' CHR ''v'' CHR ''x'' u) \<subseteq> set ''ivxlcdm''"
    by (rule subset_trans[OF romanDigit_set]) simp
  have "set (canonicalRoman k h t u) \<subseteq> set ''ivxlcdm''"
    unfolding canonicalRoman_def set_append using m a b c by blast
  then show ?thesis unfolding list_all_iff by blast
qed

lemma isValidRomanNumeral_canonical:
  "isValidRomanNumeral mk \<longleftrightarrow>
     toLowerCase mk \<noteq> [] \<and>
     (\<exists>k h t u. k \<le> 3 \<and> h \<le> 9 \<and> t \<le> 9 \<and> u \<le> 9 \<and> toLowerCase mk = canonicalRoman k h t u)"
  using canonicalRoman_chars
  by (auto simp: isValidRomanNumeral_def Let_def test_anchored_lang lang_validRomanPattern)

lemma digits_bound:
  assumes "1 \<le> n" and "n \<le> 3999"
  shows "nat n div 1000 \<le> 3 \<and> nat n div 100 mod 10 \<le> 9 \<and> nat n div 10 mod 10 \<le> 9
         \<and> nat n mod 10 \<le> 9"
proof -
  have "nat n < 4000" using assms by simp
  then have "nat n div 1000 < 4" by (simp add: div_less_iff_less_mult)
  moreover have "m mod 10 \<le> 9" for m :: nat
  proof -
    have "m mod 10 < 10" by simp
    then show ?thesis by linarith
  qed
  ultimately show ?thesis by simp
qed

lemma canonicalRoman_value_bounds:
  assumes "k \<le> 3" "h \<le> 9" "t \<le> 9" "u \<le> 9" and "canonicalRoman k h t u \<noteq> []"
  shows "1 \<le> 1000 * int k + 100 * int h + 10 * int t + int u"
    and "1000 * int k + 100 * int h + 10 * int t + int u \<le> 3999"
proof -
  from assms(5) have "k \<noteq> 0 \<or> h \<noteq> 0 \<or> t \<noteq> 0 \<or> u \<noteq> 0"
    by (simp add: canonicalRoman_Nil)
  then show "1 \<le> 1000 * int k + 100 * int h + 10 * int t + int u" by linarith
  show "1000 * int k + 100 * int h + 10 * int t + int u \<le> 3999" using assms(1-4) by linarith
qed

text \<open>
  Claim C3. The validator accepts a marker exactly when its lower-cased form is the numeral
  that \<open>generateRomanMarker\<close> produces for some integer from 1 to 3999; it rejects \<open>iiii\<close>,
  \<open>vx\<close> and the empty string.
\<close>

theorem C3_roman_validator:
  "(isValidRomanNumeral mk \<longleftrightarrow>
      (\<exists>n. 1 \<le> n \<and> n \<le> 3999 \<and> generateRomanMarker n = Inr (toLowerCase mk)))
   \<and> \<not> isValidRomanNumeral ''iiii'' \<and> \<not> isValidRomanNumeral ''vx''
   \<and> \<not> isValidRomanNumeral []"
proof -
  have main: "isValidRomanNumeral mk \<longleftrightarrow>
      (\<exists>n. 1 \<le> n \<and> n \<le> 3999 \<and> generateRomanMarker n = Inr (toLowerCase mk))"
  proof
    assume "isValidRomanNumeral mk"
    then obtain k h t u where ne: "toLowerCase mk \<noteq> []"
      and d: "k \<le> 3" "h \<le> 9" "t \<le> 9" "u \<le> 9"
      and eq: "toLowerCase mk = canonicalRoman k h t u"
      unfolding isValidRomanNumeral_canonical by blast
    let ?n = "1000 * int k + 100 * int h + 10 * int t + int u"
    from ne eq have ne': "canonicalRoman k h t u \<noteq> []" by simp
    have b: "1 \<le> ?n" "?n \<le> 3999"
      using canonicalRoman_value_bounds[OF d ne'] by simp_all
    have "generateRomanMarker ?n = Inr (canonicalRoman k h t u)"
      using b(1) roman_for_map[OF d(2,3,4), of k] by (simp add: generateRomanMarker_def)
    with b eq show "\<exists>n. 1 \<le> n \<and> n \<le> 3999 \<and> generateRomanMarker n = Inr (toLowerCase mk)"
      by auto
  next
    assume "\<exists>n. 1 \<le> n \<and> n \<le> 3999 \<and> generateRomanMarker n = Inr (toLowerCase mk)"
    then obtain n where n: "1 \<le> n" "n \<le> 3999"
      and g: "generateRomanMarker n = Inr (toLowerCase mk)" by blast
    let ?k = "nat n div 1000" and ?h = "nat n div 100 mod 10"
    let ?t = "nat n div 10 mod 10" and ?u = "nat n mod 10"
    from g generateRomanMarker_canonical[OF n(1)]
    have eq: "toLowerCase mk = canonicalRoman ?k ?h ?t ?u" by simp
    have d: "?k \<le> 3 \<and> ?h \<le> 9 \<and> ?t \<le> 9 \<and> ?u \<le> 9" using digits_bound[OF n] .
    have "nat n \<noteq> 0" using n(1) by simp
    then have "\<not> (?k = 0 \<and> ?h = 0 \<and> ?t = 0 \<and> ?u = 0)"
      using decimal_digits[of "nat n"] by auto
    then have "toLowerCase mk \<noteq> []" unfolding eq canonicalRoman_Nil .
    with d eq show "isValidRomanNumeral mk"
      unfolding isValidRomanNumeral_canonical by blast
  qed
  have r1: "\<not> isValidRomanNumeral ''iiii''" by code_simp
  have r2: "\<not> isValidRomanNumeral ''vx''" by code_simp
  have r3: "\<not> isValidRomanNumeral []" by code_simp
  from main r1 r2 r3 show ?thesis by blast
qed

theorem C3_roman_validator_witness:
  "isValidRomanNumeral ''MCMXCIV''
   \<and> (\<exists>n. 1 \<le> n \<and> n \<le> 3999 \<and> generateRomanMarker n = Inr (toLowerCase ''MCMXCIV''))"
proof -
  have "isValidRomanNumeral ''MCMXCIV''" by code_simp
  with C3_roman_validator[of "''MCMXCIV''"] show ?thesis by blast
qed










subsection \<open>The list parser\<close>

lemma parseList_loop_lines:
  "\<exists>k. map fst (parseList_loop settings doc end n cs acc)
        = map fst acc @ map (\<lambda>i. n + int i) [0..<k]"
proof (induction settings doc "end" n cs acc rule: parseList_loop.induct)
  case (1 settings doc "end" lineNumber contextStack parsedLines)
  show ?case
  proof (cases "lineNumber \<le> end
                \<and> parseList_body settings (doc lineNumber) contextStack \<noteq> None")
    case False
    then have "parseList_loop settings doc end lineNumber contextStack parsedLines
               = parsedLines"
      by (subst parseList_loop.simps) (auto split: option.splits)
    then have "map fst (parseList_loop settings doc end lineNumber contextStack parsedLines)
               = map fst parsedLines @ map (\<lambda>i. lineNumber + int i) [0..<0]" by simp
    then show ?thesis by blast
  next
    case True
    then obtain cs' current
      where b: "parseList_body settings (doc lineNumber) contextStack = Some (cs', current)"
      by auto
    have step: "parseList_loop settings doc end lineNumber contextStack parsedLines
          = parseList_loop settings doc end (lineNumber + 1) cs'
              (parsedLines @ [(lineNumber, current)])"
      using True b by (subst parseList_loop.simps) simp
    from True have "lineNumber \<le> end" by simp
    from "1.IH"[OF this b refl]
    obtain k where k: "map fst (parseList_loop settings doc end (lineNumber + 1) cs'
              (parsedLines @ [(lineNumber, current)]))
        = map fst (parsedLines @ [(lineNumber, current)])
          @ map (\<lambda>i. lineNumber + 1 + int i) [0..<k]" by blast
    have "map (\<lambda>i. lineNumber + int i) [0..<Suc k]
          = lineNumber # map (\<lambda>i. lineNumber + 1 + int i) [0..<k]"
      by (simp add: upt_conv_Cons map_Suc_upt[symmetric] del: upt_Suc)
    with k step
    have "map fst (parseList_loop settings doc end lineNumber contextStack parsedLines)
          = map fst parsedLines @ map (\<lambda>i. lineNumber + int i) [0..<Suc k]"
      by simp
    then show ?thesis by blast
  qed
qed

lemma parseList_lines:
  "map fst (parseList settings doc start end)
   = map (\<lambda>i. start + int i) [0..<length (parseList settings doc start end)]"
proof -
  obtain k where k: "map fst (parseList settings doc start end)
                     = map (\<lambda>i. start + int i) [0..<k]"
    using parseList_loop_lines[of settings doc "end" start "[]" "[]"]
    by (auto simp: parseList_def)
  then have "length (map fst (parseList settings doc start end))
             = length (map (\<lambda>i. start + int i) [0..<k])" by (rule arg_cong)
  then have "length (parseList settings doc start end) = k" by simp
  with k show ?thesis by simp
qed

lemma run_sorted: "sorted_wrt (<) (map (\<lambda>i. (a::int) + int i) [0..<k])"
  by (simp add: sorted_wrt_map sorted_wrt_iff_nth_less)

lemma run_Max_Suc: "Max (set (map (\<lambda>i. (a::int) + int i) [0..<Suc n])) = a + int n"
proof (rule Max_eqI)
  show "finite (set (map (\<lambda>i. a + int i) [0..<Suc n]))" by simp
  show "y \<le> a + int n" if "y \<in> set (map (\<lambda>i. a + int i) [0..<Suc n])" for y
  proof -
    from that have "y \<in> (\<lambda>i. a + int i) ` {0..<Suc n}" unfolding set_map set_upt .
    then obtain i where i: "i \<in> {0..<Suc n}" and y: "y = a + int i" by (rule imageE)
    from i have "i \<le> n" by simp
    with y show ?thesis by simp
  qed
  show "a + int n \<in> set (map (\<lambda>i. a + int i) [0..<Suc n])" by simp
qed

lemma run_Max:
  assumes "0 < k"
  shows "Max (set (map (\<lambda>i. (a::int) + int i) [0..<k])) = a + int k - 1"
proof -
  from assms obtain n where "k = Suc n" by (cases k) simp_all
  then show ?thesis using run_Max_Suc[of a n] by simp
qed

lemma isRun_parseList: "isRun (map fst (parseList settings doc start end))"
proof (cases "parseList settings doc start end = []")
  case True
  then show ?thesis by (simp add: isRun_def)
next
  case False
  let ?l = "parseList settings doc start end"
  have e: "map fst ?l = map (\<lambda>i. start + int i) [0..<length ?l]" by (rule parseList_lines)
  from False have "0 < length ?l" by simp
  then have "hd (map (\<lambda>i. start + int i) [0..<length ?l]) = start"
    by (simp add: hd_map upt_conv_Cons)
  then have "hd (map fst ?l) = start" using e by simp
  then show ?thesis unfolding isRun_def using e by simp
qed

lemma parseLists_loop_inv:
  assumes "sorted_wrt (<) (linesOf acc)" and "\<forall>x \<in> set (linesOf acc). x < cur"
    and "\<forall>l \<in> set acc. isRun (map fst l)"
  shows "sorted_wrt (<) (linesOf (parseLists_loop settings doc end cur acc))
         \<and> (\<forall>l \<in> set (parseLists_loop settings doc end cur acc). isRun (map fst l))"
  using assms
proof (induction settings doc "end" cur acc rule: parseLists_loop.induct)
  case (1 settings doc "end" currentLine parsedLists)
  let ?pl = "parseList settings doc currentLine end"
  show ?case
  proof (cases "currentLine \<le> end")
    case False
    then have "parseLists_loop settings doc end currentLine parsedLists = parsedLists"
      by (subst parseLists_loop.simps) simp
    with "1.prems" show ?thesis by simp
  next
    case True
    show ?thesis
    proof (cases "0 < length ?pl")
      case False
      have step: "parseLists_loop settings doc end currentLine parsedLists
                  = parseLists_loop settings doc end (currentLine + 1) parsedLists"
        using True False by (subst parseLists_loop.simps) simp
      have "\<forall>x \<in> set (linesOf parsedLists). x < currentLine + 1"
        using "1.prems"(2) by auto
      with "1.IH"(2)[OF True refl False "1.prems"(1) _ "1.prems"(3)] step
      show ?thesis by simp
    next
      case pos: True
      let ?k = "length ?pl"
      have e: "map fst ?pl = map (\<lambda>i. currentLine + int i) [0..<?k]"
        by (rule parseList_lines)
      have mx: "Max (set (map fst ?pl)) = currentLine + int ?k - 1"
        by (subst e) (rule run_Max[OF pos])
      have step: "parseLists_loop settings doc end currentLine parsedLists
                  = parseLists_loop settings doc end (Max (set (map fst ?pl)) + 1)
                      (parsedLists @ [?pl])"
        using True pos by (subst parseLists_loop.simps) (simp add: Let_def)
      have l: "linesOf (parsedLists @ [?pl]) = linesOf parsedLists @ map fst ?pl"
        by (simp add: linesOf_def)
      have ge: "\<forall>y \<in> set (map fst ?pl). currentLine \<le> y" by (subst e) auto
      have s2: "sorted_wrt (<) (map fst ?pl)" by (subst e) (rule run_sorted)
      have cross: "\<forall>x \<in> set (linesOf parsedLists). \<forall>y \<in> set (map fst ?pl). x < y"
      proof (intro ballI)
        fix x y
        assume "x \<in> set (linesOf parsedLists)" and "y \<in> set (map fst ?pl)"
        then have "x < currentLine" and "currentLine \<le> y" using "1.prems"(2) ge by blast+
        then show "x < y" by simp
      qed
      have a1: "sorted_wrt (<) (linesOf (parsedLists @ [?pl]))"
        unfolding l sorted_wrt_append using "1.prems"(1) s2 cross by blast
      have a2: "\<forall>x \<in> set (linesOf (parsedLists @ [?pl])). x < Max (set (map fst ?pl)) + 1"
      proof
        fix x assume "x \<in> set (linesOf (parsedLists @ [?pl]))"
        then consider "x \<in> set (linesOf parsedLists)" | "x \<in> set (map fst ?pl)"
          unfolding l by auto
        then show "x < Max (set (map fst ?pl)) + 1"
        proof cases
          case 1
          with "1.prems"(2) have "x < currentLine" by blast
          with mx show ?thesis by simp
        next
          case 2
          then have "x \<le> Max (set (map fst ?pl))" by (intro Max_ge) simp_all
          then show ?thesis by simp
        qed
      qed
      have a3: "\<forall>l \<in> set (parsedLists @ [?pl]). isRun (map fst l)"
        using "1.prems"(3) isRun_parseList[of settings doc currentLine "end"] by auto
      from "1.IH"(1)[OF True refl pos a1 a2 a3] step show ?thesis by simp
    qed
  qed
qed

lemma parseLists_inv:
  "sorted_wrt (<) (linesOf (parseLists settings doc start end))
   \<and> (\<forall>l \<in> set (parseLists settings doc start end). isRun (map fst l))"
  unfolding parseLists_def by (rule parseLists_loop_inv) (simp_all add: linesOf_def)

lemma sorted_concat_nth:
  "sorted_wrt (<) (concat xss) \<Longrightarrow> i < j \<Longrightarrow> j < length xss \<Longrightarrow>
   x \<in> set (xss ! i) \<Longrightarrow> y \<in> set (xss ! j) \<Longrightarrow> x < (y::int)"
proof (induction xss arbitrary: i j)
  case Nil
  then show ?case by simp
next
  case (Cons l rest)
  from Cons.prems(1) have s: "sorted_wrt (<) (concat rest)"
    and c: "\<forall>a \<in> set l. \<forall>b \<in> set (concat rest). a < b"
    by (simp_all add: sorted_wrt_append)
  from Cons.prems(2) obtain j' where j: "j = Suc j'" by (cases j) simp_all
  with Cons.prems(3) have j'len: "j' < length rest" by simp
  from Cons.prems(5) j have y: "y \<in> set (rest ! j')" by simp
  show ?case
  proof (cases i)
    case 0
    with Cons.prems(4) have "x \<in> set l" by simp
    moreover from y j'len have "y \<in> set (concat rest)" by auto
    ultimately show ?thesis using c by blast
  next
    case (Suc i')
    with Cons.prems(2,4) j have "i' < j'" "x \<in> set (rest ! i')" by simp_all
    with Cons.IH[OF s _ j'len _ y] show ?thesis by blast
  qed
qed

lemma isRun_nth:
  assumes "isRun xs" and "Suc i < length xs"
  shows "xs ! Suc i = xs ! i + 1"
proof -
  let ?r = "map (\<lambda>i. hd xs + int i) [0..<length xs]"
  from assms(1) have e: "xs = ?r" by (simp add: isRun_def)
  have "?r ! Suc i = hd xs + int (Suc i)" using assms(2) by simp
  moreover have "?r ! i = hd xs + int i" using assms(2) by simp
  ultimately have "?r ! Suc i = ?r ! i + 1" by simp
  with e show ?thesis by metis
qed

text \<open>
  Claim C8. For every configuration, document and line range, the lists returned by
  \<open>parseLists\<close> are pairwise disjoint in their line numbers, and within each list every line
  number is the previous one plus 1.
\<close>

theorem C8_parser_lists_disjoint_contiguous:
  "(\<forall>i j. i < j \<and> j < length (parseLists settings doc start end) \<longrightarrow>
       set (map fst (parseLists settings doc start end ! i))
       \<inter> set (map fst (parseLists settings doc start end ! j)) = {})
   \<and> (\<forall>l \<in> set (parseLists settings doc start end).
         \<forall>i. Suc i < length l \<longrightarrow> fst (l ! Suc i) = fst (l ! i) + 1)"
proof -
  let ?ls = "parseLists settings doc start end"
  have inv: "sorted_wrt (<) (concat (map (map fst) ?ls))"
    and runs: "\<forall>l \<in> set ?ls. isRun (map fst l)"
    using parseLists_inv[of settings doc start "end"] by (simp_all add: linesOf_def)
  have a: "\<forall>i j. i < j \<and> j < length ?ls \<longrightarrow>
       set (map fst (?ls ! i)) \<inter> set (map fst (?ls ! j)) = {}"
  proof (intro allI impI)
    fix i j
    assume h: "i < j \<and> j < length ?ls"
    show "set (map fst (?ls ! i)) \<inter> set (map fst (?ls ! j)) = {}"
    proof (rule ccontr)
      assume "set (map fst (?ls ! i)) \<inter> set (map fst (?ls ! j)) \<noteq> {}"
      then obtain x where x: "x \<in> set (map fst (?ls ! i))" "x \<in> set (map fst (?ls ! j))"
        by blast
      from h have "i < length ?ls" by simp
      with h x have "x \<in> set (map (map fst) ?ls ! i)" "x \<in> set (map (map fst) ?ls ! j)"
        by simp_all
      with sorted_concat_nth[OF inv, of i j x x] h have "x < x" by simp
      then show False by simp
    qed
  qed
  have b: "\<forall>l \<in> set ?ls. \<forall>i. Suc i < length l \<longrightarrow> fst (l ! Suc i) = fst (l ! i) + 1"
  proof (intro ballI allI impI)
    fix l i
    assume l: "l \<in> set ?ls" and i: "Suc i < length l"
    from runs l have "isRun (map fst l)" by blast
    from isRun_nth[OF this, of i] i show "fst (l ! Suc i) = fst (l ! i) + 1" by simp
  qed
  from a b show ?thesis by blast
qed

lemma parseLists_example:
  "parseLists DEFAULT_SETTINGS (mockDoc [''a. x'', ''b. y'', ''text'', ''A. z'']) 1 4
   = [[(1, \<lparr>type = Alphabetical, indentation = [], marker = ''a'', separator = Dot,
             content = ''x''\<rparr>),
       (2, \<lparr>type = Alphabetical, indentation = [], marker = ''b'', separator = Dot,
             content = ''y''\<rparr>)],
      [(4, \<lparr>type = Alphabetical, indentation = [], marker = ''A'', separator = Dot,
             content = ''z''\<rparr>)]]"
  by code_simp

theorem C8_parser_lists_disjoint_contiguous_witness:
  "length (parseLists DEFAULT_SETTINGS (mockDoc [''a. x'', ''b. y'', ''text'', ''A. z'']) 1 4) = 2
   \<and> set (map fst (parseLists DEFAULT_SETTINGS
                      (mockDoc [''a. x'', ''b. y'', ''text'', ''A. z'']) 1 4 ! 0))
     \<inter> set (map fst (parseLists DEFAULT_SETTINGS
                        (mockDoc [''a. x'', ''b. y'', ''text'', ''A. z'']) 1 4 ! 1)) = {}
   \<and> fst (parseLists DEFAULT_SETTINGS
            (mockDoc [''a. x'', ''b. y'', ''text'', ''A. z'']) 1 4 ! 0 ! 1)
     = fst (parseLists DEFAULT_SETTINGS
              (mockDoc [''a. x'', ''b. y'', ''text'', ''A. z'']) 1 4 ! 0 ! 0) + 1"
proof -
  let ?ls = "parseLists DEFAULT_SETTINGS (mockDoc [''a. x'', ''b. y'', ''text'', ''A. z'']) 1 4"
  have len: "length ?ls = 2" by (simp add: parseLists_example)
  have mem: "?ls ! 0 \<in> set ?ls" and len0: "Suc 0 < length (?ls ! 0)"
    by (simp_all add: parseLists_example)
  from C8_parser_lists_disjoint_contiguous[of DEFAULT_SETTINGS
      "mockDoc [''a. x'', ''b. y'', ''text'', ''A. z'']" 1 4]
  have a: "\<forall>i j. i < j \<and> j < length ?ls \<longrightarrow>
             set (map fst (?ls ! i)) \<inter> set (map fst (?ls ! j)) = {}"
    and b: "\<forall>l \<in> set ?ls. \<forall>i. Suc i < length l \<longrightarrow> fst (l ! Suc i) = fst (l ! i) + 1"
    by blast+
  from a len have "set (map fst (?ls ! 0)) \<inter> set (map fst (?ls ! 1)) = {}" by simp
  moreover from b mem len0 have "fst (?ls ! 0 ! Suc 0) = fst (?ls ! 0 ! 0) + 1" by blast
  ultimately show ?thesis using len by simp
qed

subsection \<open>Rendering and parsing a line\<close>

lemma matchMarker_split: "matchMarker settings r = Some (mk, r1) \<Longrightarrow> r = mk @ r1"
  by (auto simp: matchMarker_def Let_def split: if_splits)

lemma matchContent_split: "matchContent r = Some cnt \<Longrightarrow> r = CHR '' '' # cnt"
  by (auto simp: matchContent_def split: list.splits if_splits)

lemma standardMatch_split:
  assumes "standardMatch settings t = Some (ind, mk, sep, cnt)"
  shows "t = ind @ mk @ separatorText sep @ CHR '' '' # cnt \<and> sep \<noteq> Parentheses"
proof -
  let ?r = "dropWhile isWhiteSpace t"
  from assms obtain r where m: "matchMarker settings ?r = Some (mk, r)"
    and ind: "ind = takeWhile isWhiteSpace t"
    by (auto simp: standardMatch_def Let_def split: option.splits list.splits if_splits)
  from assms m obtain sepc r' where r: "r = sepc # r'"
    and c: "matchContent r' = Some cnt"
    and s: "sep = (if sepc = CHR ''.'' then Dot else Parenthesis)"
    and sc: "sepc = CHR ''.'' \<or> sepc = CHR '')''"
    by (auto simp: standardMatch_def Let_def split: option.splits list.splits if_splits)
  have "?r = mk @ sepc # CHR '' '' # cnt"
    using matchMarker_split[OF m] matchContent_split[OF c] r by simp
  moreover have "separatorText sep = [sepc]" using s sc by (auto simp: separatorText_def)
  moreover have "t = ind @ ?r" using ind by simp
  ultimately show ?thesis using s by auto
qed

lemma parenthesesMatch_split:
  assumes "parenthesesMatch settings t = Some (ind, mk, cnt)"
  shows "t = ind @ ''('' @ mk @ '')'' @ CHR '' '' # cnt"
proof -
  let ?r = "dropWhile isWhiteSpace t"
  from assms obtain r0 where r0: "?r = CHR ''('' # r0"
    and ind: "ind = takeWhile isWhiteSpace t"
    by (auto simp: parenthesesMatch_def Let_def split: option.splits list.splits if_splits)
  from assms r0 obtain r where m: "matchMarker settings r0 = Some (mk, r)"
    by (auto simp: parenthesesMatch_def Let_def split: option.splits list.splits if_splits)
  from assms r0 m obtain r' where r: "r = CHR '')'' # r'" and c: "matchContent r' = Some cnt"
    by (auto simp: parenthesesMatch_def Let_def split: option.splits list.splits if_splits)
  have "?r = CHR ''('' # mk @ CHR '')'' # CHR '' '' # cnt"
    using r0 matchMarker_split[OF m] matchContent_split[OF c] r by simp
  moreover have "t = ind @ ?r" using ind by simp
  ultimately show ?thesis by simp
qed

lemma alphabet_not_white: "isAlphabetChar settings c \<Longrightarrow> \<not> isWhiteSpace c"
  by (auto simp: isAlphabetChar_def isWhiteSpace_def Let_def)

lemma digit_not_white: "isDigitChar c \<Longrightarrow> \<not> isWhiteSpace c"
  by (auto simp: isDigitChar_def isWhiteSpace_def)

lemma alphabet_not_digit: "isAlphabetChar settings c \<Longrightarrow> \<not> isDigitChar c"
  by (auto simp: isAlphabetChar_def isDigitChar_def Let_def)

lemma separators_plain:
  assumes "c = CHR ''.'' \<or> c = CHR '')'' \<or> c = CHR ''(''"
  shows "\<not> isAlphabetChar settings c" and "\<not> isDigitChar c" and "\<not> isWhiteSpace c"
  using assms by (auto simp: isAlphabetChar_def isDigitChar_def isWhiteSpace_def Let_def)

lemma isMarkerToken_first:
  assumes "isMarkerToken settings mk"
  shows "mk \<noteq> [] \<and> \<not> isWhiteSpace (hd mk)"
proof -
  from assms have ne: "mk \<noteq> []" by (auto simp: isMarkerToken_def)
  then obtain c cs where mk: "mk = c # cs" by (cases mk) auto
  from assms mk have "isAlphabetChar settings c \<or> isDigitChar c"
    by (auto simp: isMarkerToken_def)
  then have "\<not> isWhiteSpace c" using alphabet_not_white digit_not_white by blast
  with ne mk show ?thesis by simp
qed

lemma takeWhile_run:
  assumes "list_all P xs" and "ys = [] \<or> \<not> P (hd ys)"
  shows "takeWhile P (xs @ ys) = xs" and "dropWhile P (xs @ ys) = ys"
proof -
  have a: "\<And>x. x \<in> set xs \<Longrightarrow> P x" using assms(1) by (simp add: list_all_iff)
  have t: "takeWhile P ys = []" and d: "dropWhile P ys = ys"
    using assms(2) by (cases ys; simp)+
  show "takeWhile P (xs @ ys) = xs" using a t by (simp add: takeWhile_append2)
  show "dropWhile P (xs @ ys) = ys" using a d by (simp add: dropWhile_append2)
qed

lemma matchMarker_token:
  assumes "isMarkerToken settings mk" and "\<not> isAlphabetChar settings c" and "\<not> isDigitChar c"
  shows "matchMarker settings (mk @ c # rest) = Some (mk, c # rest)"
proof (cases "list_all (isAlphabetChar settings) mk")
  case True
  have r: "c # rest = [] \<or> \<not> isAlphabetChar settings (hd (c # rest))" using assms(2) by simp
  from takeWhile_run[OF True r]
  have t: "takeWhile (isAlphabetChar settings) (mk @ c # rest) = mk"
    and d: "dropWhile (isAlphabetChar settings) (mk @ c # rest) = c # rest" .
  from assms(1) have ne: "mk \<noteq> []" by (auto simp: isMarkerToken_def)
  with True have "\<not> list_all isDigitChar mk"
    by (cases mk) (auto dest: alphabet_not_digit)
  with assms(1) True have
    "(2 \<le> length mk
        \<and> (nestedAlphabeticalMode settings \<noteq> ModeDisabled \<or> enableRomanLists settings))
     \<or> (length mk = 1 \<and> (enableAlphabeticalLists settings \<or> enableRomanLists settings))"
    by (auto simp: isMarkerToken_def)
  then show ?thesis by (auto simp: matchMarker_def Let_def t d)
next
  case False
  with assms(1) have dg: "list_all isDigitChar mk" and ne: "mk \<noteq> []"
    by (auto simp: isMarkerToken_def)
  have r: "c # rest = [] \<or> \<not> isDigitChar (hd (c # rest))" using assms(3) by simp
  from takeWhile_run[OF dg r]
  have t: "takeWhile isDigitChar (mk @ c # rest) = mk"
    and d: "dropWhile isDigitChar (mk @ c # rest) = c # rest" .
  obtain x xs where mk: "mk = x # xs" using ne by (cases mk) auto
  with dg have "isDigitChar x" by simp
  then have "\<not> isAlphabetChar settings x" using alphabet_not_digit by blast
  then have "takeWhile (isAlphabetChar settings) (mk @ c # rest) = []" by (simp add: mk)
  then show ?thesis using ne by (simp add: matchMarker_def Let_def t d)
qed

lemma matchMarker_is_token:
  assumes "matchMarker settings r = Some (mk, r1)"
  shows "isMarkerToken settings mk"
proof -
  have a: "list_all (isAlphabetChar settings) (takeWhile (isAlphabetChar settings) r)"
    by (simp add: list_all_iff) (meson set_takeWhileD)
  have b: "list_all isDigitChar (takeWhile isDigitChar r)"
    by (simp add: list_all_iff) (meson set_takeWhileD)
  from assms a b show ?thesis
    by (auto simp: matchMarker_def Let_def isMarkerToken_def split: if_splits)
qed

lemma white_prefix: "list_all isWhiteSpace (takeWhile isWhiteSpace t)"
  by (simp add: list_all_iff) (meson set_takeWhileD)

lemma matchContent_iff:
  "matchContent r = Some cnt \<longleftrightarrow> r = CHR '' '' # cnt \<and> list_all (\<lambda>c. \<not> isLineTerminator c) cnt"
  by (auto simp: matchContent_def split: list.splits)

lemma standardMatch_render:
  assumes "list_all isWhiteSpace ind" and "isMarkerToken settings mk"
    and "sep = Dot \<or> (sep = Parenthesis \<and> enableParentheses settings)"
    and "list_all (\<lambda>c. \<not> isLineTerminator c) cnt"
  shows "standardMatch settings (ind @ mk @ separatorText sep @ CHR '' '' # cnt)
         = Some (ind, mk, sep, cnt)"
proof -
  define sepc where "sepc = (if sep = Dot then CHR ''.'' else CHR '')'')"
  have st: "separatorText sep = [sepc]"
    using assms(3) by (auto simp: separatorText_def sepc_def)
  have sc: "sepc = CHR ''.'' \<or> sepc = CHR '')'' \<or> sepc = CHR ''(''" by (simp add: sepc_def)
  let ?r = "mk @ sepc # CHR '' '' # cnt"
  from isMarkerToken_first[OF assms(2)] have "?r = [] \<or> \<not> isWhiteSpace (hd ?r)" by simp
  from takeWhile_run[OF assms(1) this]
  have t: "takeWhile isWhiteSpace (ind @ ?r) = ind" and d: "dropWhile isWhiteSpace (ind @ ?r) = ?r" .
  have m: "matchMarker settings ?r = Some (mk, sepc # CHR '' '' # cnt)"
    using assms(2) separators_plain(1,2)[OF sc] by (rule matchMarker_token)
  have c: "matchContent (CHR '' '' # cnt) = Some cnt"
    using assms(4) by (simp add: matchContent_iff)
  have ok: "sepc = CHR ''.'' \<or> (enableParentheses settings \<and> sepc = CHR '')'')"
    using assms(3) by (auto simp: sepc_def)
  have sp: "(if sepc = CHR ''.'' then Dot else Parenthesis) = sep"
    using assms(3) by (auto simp: sepc_def)
  show ?thesis
    unfolding st using ok sp by (simp add: standardMatch_def Let_def t d m c)
qed

lemma standardMatch_parenthesised:
  "standardMatch settings (ind @ CHR ''('' # rest) = None" if "list_all isWhiteSpace ind"
proof -
  have "\<not> isWhiteSpace CHR ''(''" by (rule separators_plain(3)) simp
  then have "CHR ''('' # rest = [] \<or> \<not> isWhiteSpace (hd (CHR ''('' # rest))" by simp
  from takeWhile_run(2)[OF that this]
  have d: "dropWhile isWhiteSpace (ind @ CHR ''('' # rest) = CHR ''('' # rest" .
  have a: "\<not> isAlphabetChar settings CHR ''(''" and b: "\<not> isDigitChar CHR ''(''"
    by (rule separators_plain; simp)+
  have "matchMarker settings (CHR ''('' # rest) = None"
    using a b by (simp add: matchMarker_def Let_def)
  then show ?thesis by (simp add: standardMatch_def Let_def d)
qed

lemma parenthesesMatch_render:
  assumes "list_all isWhiteSpace ind" and "isMarkerToken settings mk"
    and "list_all (\<lambda>c. \<not> isLineTerminator c) cnt"
  shows "parenthesesMatch settings (ind @ ''('' @ mk @ '')'' @ CHR '' '' # cnt)
         = Some (ind, mk, cnt)"
proof -
  let ?r = "CHR ''('' # mk @ CHR '')'' # CHR '' '' # cnt"
  have "\<not> isWhiteSpace CHR ''(''" by (rule separators_plain(3)) simp
  then have "?r = [] \<or> \<not> isWhiteSpace (hd ?r)" by simp
  from takeWhile_run[OF assms(1) this]
  have t: "takeWhile isWhiteSpace (ind @ ?r) = ind" and d: "dropWhile isWhiteSpace (ind @ ?r) = ?r" .
  have a: "\<not> isAlphabetChar settings CHR '')''" and b: "\<not> isDigitChar CHR '')''"
    by (rule separators_plain; simp)+
  have m: "matchMarker settings (mk @ CHR '')'' # CHR '' '' # cnt)
           = Some (mk, CHR '')'' # CHR '' '' # cnt)"
    using assms(2) a b by (rule matchMarker_token)
  have c: "matchContent (CHR '' '' # cnt) = Some cnt"
    using assms(3) by (simp add: matchContent_iff)
  have "parenthesesMatch settings (ind @ ?r) = Some (ind, mk, cnt)"
    by (simp add: parenthesesMatch_def Let_def t d m c)
  then show ?thesis by simp
qed

lemma standardMatch_fields:
  assumes "standardMatch settings t = Some (ind, mk, sep, cnt)"
  shows "list_all isWhiteSpace ind \<and> isMarkerToken settings mk
         \<and> (sep = Dot \<or> (sep = Parenthesis \<and> enableParentheses settings))
         \<and> list_all (\<lambda>c. \<not> isLineTerminator c) cnt"
proof -
  let ?r = "dropWhile isWhiteSpace t"
  from assms obtain r where m: "matchMarker settings ?r = Some (mk, r)"
    and ind: "ind = takeWhile isWhiteSpace t"
    by (auto simp: standardMatch_def Let_def split: option.splits list.splits if_splits)
  from assms m obtain sepc r' where r: "r = sepc # r'"
    and c: "matchContent r' = Some cnt"
    and s: "sep = (if sepc = CHR ''.'' then Dot else Parenthesis)"
    and sc: "sepc = CHR ''.'' \<or> (enableParentheses settings \<and> sepc = CHR '')'')"
    by (auto simp: standardMatch_def Let_def split: option.splits list.splits if_splits)
  from s sc have "sep = Dot \<or> (sep = Parenthesis \<and> enableParentheses settings)" by auto
  with matchMarker_is_token[OF m] c ind show ?thesis
    by (simp add: white_prefix matchContent_iff)
qed

lemma parenthesesMatch_fields:
  assumes "parenthesesMatch settings t = Some (ind, mk, cnt)"
  shows "list_all isWhiteSpace ind \<and> isMarkerToken settings mk
         \<and> list_all (\<lambda>c. \<not> isLineTerminator c) cnt"
proof -
  let ?r = "dropWhile isWhiteSpace t"
  from assms obtain r0 where r0: "?r = CHR ''('' # r0"
    and ind: "ind = takeWhile isWhiteSpace t"
    by (auto simp: parenthesesMatch_def Let_def split: option.splits list.splits if_splits)
  from assms r0 obtain r where m: "matchMarker settings r0 = Some (mk, r)"
    by (auto simp: parenthesesMatch_def Let_def split: option.splits list.splits if_splits)
  from assms r0 m obtain r' where r: "r = CHR '')'' # r'" and c: "matchContent r' = Some cnt"
    by (auto simp: parenthesesMatch_def Let_def split: option.splits list.splits if_splits)
  from matchMarker_is_token[OF m] c ind show ?thesis
    by (simp add: white_prefix matchContent_iff)
qed

lemma createResult_part_001_alone:
  "createResult_part_001 settings ind mk sep cnt None = Inr (Some ln) \<longleftrightarrow>
   determineListType_part_001 settings mk None = Inr (Some (type ln))
   \<and> indentation ln = ind \<and> marker ln = mk \<and> separator ln = sep
   \<and> content ln = CHR '' '' # cnt"
  by (cases ln) (auto simp: createResult_part_001_def split: sum.splits option.splits)

text \<open>
  Claim C1 says that rendering any Marker Line and parsing the text again gives the same
  Marker Line. The Alphabetical line \<open>c\<close> with content \<open>" x"\<close> is a Marker Line value, and the
  parser returns it for the line \<open>c. x\<close> after the sibling \<open>b\<close>. It renders as \<open>c. x\<close>, which
  read on its own is a Roman line, for this parser and for the parser of \<open>parser.ts\<close>: a
  letter that is also a Roman numeral is Alphabetical only through its context. Parsing
  with the context again does not help either: after \<open>b\<close> the line \<open>zz. x\<close> is the
  NestedAlphabetical line \<open>c\<close>, whose text \<open>c. x\<close> is an Alphabetical line after \<open>b\<close>.
\<close>

theorem C1_parse_render_counterexample:
  "isMarkerLine DEFAULT_SETTINGS
     \<lparr>type = Alphabetical, indentation = [], marker = ''c'', separator = Dot, content = '' x''\<rparr>
   \<and> parseLine_part_001 DEFAULT_SETTINGS ''c. x''
         (Some \<lparr>type = Alphabetical, indentation = [], marker = ''b'', separator = Dot,
                  content = '' y''\<rparr>)
       = Inr (Some \<lparr>type = Alphabetical, indentation = [], marker = ''c'', separator = Dot,
                     content = '' x''\<rparr>)
   \<and> getLineText \<lparr>type = Alphabetical, indentation = [], marker = ''c'', separator = Dot,
                   content = '' x''\<rparr> = ''c. x''
   \<and> parseLine_part_001 DEFAULT_SETTINGS ''c. x'' None
       = Inr (Some \<lparr>type = Roman, indentation = [], marker = ''c'', separator = Dot,
                     content = '' x''\<rparr>)
   \<and> map_option type (parseLine DEFAULT_SETTINGS ''c. x'' None) = Some Roman
   \<and> parseLine_part_001 DEFAULT_SETTINGS ''zz. x''
         (Some \<lparr>type = Alphabetical, indentation = [], marker = ''b'', separator = Dot,
                  content = '' y''\<rparr>)
       = Inr (Some \<lparr>type = NestedAlphabetical, indentation = [], marker = ''c'',
                     separator = Dot, content = '' x''\<rparr>)
   \<and> getLineText \<lparr>type = NestedAlphabetical, indentation = [], marker = ''c'',
                   separator = Dot, content = '' x''\<rparr> = ''c. x''"
proof -
  have a: "isMarkerLine DEFAULT_SETTINGS
     \<lparr>type = Alphabetical, indentation = [], marker = ''c'', separator = Dot, content = '' x''\<rparr>"
    by code_simp
  have b: "parseLine_part_001 DEFAULT_SETTINGS ''c. x''
         (Some \<lparr>type = Alphabetical, indentation = [], marker = ''b'', separator = Dot,
                  content = '' y''\<rparr>)
       = Inr (Some \<lparr>type = Alphabetical, indentation = [], marker = ''c'', separator = Dot,
                     content = '' x''\<rparr>)"
    by code_simp
  have c: "getLineText \<lparr>type = Alphabetical, indentation = [], marker = ''c'', separator = Dot,
                   content = '' x''\<rparr> = ''c. x''"
    by (simp add: getLineText_def separatorText_def)
  have d: "parseLine_part_001 DEFAULT_SETTINGS ''c. x'' None
       = Inr (Some \<lparr>type = Roman, indentation = [], marker = ''c'', separator = Dot,
                     content = '' x''\<rparr>)"
    by code_simp
  have e: "map_option type (parseLine DEFAULT_SETTINGS ''c. x'' None) = Some Roman"
    by code_simp
  have f: "parseLine_part_001 DEFAULT_SETTINGS ''zz. x''
         (Some \<lparr>type = Alphabetical, indentation = [], marker = ''b'', separator = Dot,
                  content = '' y''\<rparr>)
       = Inr (Some \<lparr>type = NestedAlphabetical, indentation = [], marker = ''c'',
                     separator = Dot, content = '' x''\<rparr>)"
    by code_simp
  have g: "getLineText \<lparr>type = NestedAlphabetical, indentation = [], marker = ''c'',
                   separator = Dot, content = '' x''\<rparr> = ''c. x''"
    by (simp add: getLineText_def separatorText_def)
  from a b c d e f g show ?thesis by simp
qed

text \<open>
  Claim C1, amended. For every Marker Line value whose type is the one that the parser
  gives its marker when the line is read on its own, rendering it (indentation + marker +
  separator + content, the marker in parentheses for the double-parenthesis separator) and
  parsing that text gives the Marker Line back, equal in every field. These are exactly
  the Marker Lines that the parser returns for a line read on its own, and each of them
  renders as the line it was parsed from.
\<close>

theorem C1_parse_render_own_type:
  "(isMarkerLine settings ln
      \<and> determineListType_part_001 settings (marker ln) None = Inr (Some (type ln))
    \<longrightarrow> parseLine_part_001 settings (getLineText ln) None = Inr (Some ln))
   \<and> (parseLine_part_001 settings lineText None = Inr (Some ln)
    \<longrightarrow> isMarkerLine settings ln
        \<and> determineListType_part_001 settings (marker ln) None = Inr (Some (type ln))
        \<and> getLineText ln = lineText)"
proof -
  have render: "parseLine_part_001 settings (getLineText ln) None = Inr (Some ln)"
    if h: "isMarkerLine settings ln
           \<and> determineListType_part_001 settings (marker ln) None = Inr (Some (type ln))"
  proof -
    from h obtain cnt where cnt: "content ln = CHR '' '' # cnt"
      and plain: "list_all (\<lambda>c. \<not> isLineTerminator c) cnt"
      by (auto simp: isMarkerLine_def split: list.splits)
    from h have ind: "list_all isWhiteSpace (indentation ln)"
      and tok: "isMarkerToken settings (marker ln)"
      and sep: "separator ln = Dot \<or> enableParentheses settings"
      by (simp_all add: isMarkerLine_def)
    have res: "createResult_part_001 settings (indentation ln) (marker ln) (separator ln) cnt None
               = Inr (Some ln)"
      using h cnt by (simp add: createResult_part_001_alone)
    show ?thesis
    proof (cases "separator ln = Parentheses")
      case True
      with sep have en: "enableParentheses settings" by simp
      have rendered: "getLineText ln
                 = indentation ln @ ''('' @ marker ln @ '')'' @ CHR '' '' # cnt"
        using True cnt by (simp add: getLineText_def)
      have "standardMatch settings (getLineText ln) = None"
        unfolding rendered using standardMatch_parenthesised[OF ind] by simp
      moreover have "parenthesesMatch settings (getLineText ln)
                     = Some (indentation ln, marker ln, cnt)"
        unfolding rendered using ind tok plain by (rule parenthesesMatch_render)
      ultimately show ?thesis using en res True by (simp add: parseLine_part_001_def)
    next
      case False
      with sep have s: "separator ln = Dot
                        \<or> (separator ln = Parenthesis \<and> enableParentheses settings)"
        by (cases "separator ln") simp_all
      have rendered: "getLineText ln
                 = indentation ln @ marker ln @ separatorText (separator ln) @ CHR '' '' # cnt"
        using False cnt by (simp add: getLineText_def)
      have "standardMatch settings (getLineText ln)
            = Some (indentation ln, marker ln, separator ln, cnt)"
        unfolding rendered using ind tok s plain by (rule standardMatch_render)
      then show ?thesis using res by (simp add: parseLine_part_001_def)
    qed
  qed
  have parsed: "isMarkerLine settings ln
        \<and> determineListType_part_001 settings (marker ln) None = Inr (Some (type ln))
        \<and> getLineText ln = lineText"
    if p: "parseLine_part_001 settings lineText None = Inr (Some ln)"
  proof (cases "standardMatch settings lineText")
    case (Some q)
    obtain ind mk sep cnt where q: "q = (ind, mk, sep, cnt)" by (cases q)
    with Some p have "createResult_part_001 settings ind mk sep cnt None = Inr (Some ln)"
      by (simp add: parseLine_part_001_def)
    then have f: "determineListType_part_001 settings mk None = Inr (Some (type ln))"
      "indentation ln = ind" "marker ln = mk" "separator ln = sep"
      "content ln = CHR '' '' # cnt"
      by (simp_all add: createResult_part_001_alone)
    from standardMatch_fields[OF Some[unfolded q]] f
    have wf: "isMarkerLine settings ln" by (auto simp: isMarkerLine_def)
    from standardMatch_split[OF Some[unfolded q]] f
    have "getLineText ln = lineText" by (simp add: getLineText_def)
    with wf f show ?thesis by simp
  next
    case None
    with p have en: "enableParentheses settings"
      by (auto simp: parseLine_part_001_def split: if_splits)
    with None p obtain ind mk cnt
      where m: "parenthesesMatch settings lineText = Some (ind, mk, cnt)"
      and c: "createResult_part_001 settings ind mk Parentheses cnt None = Inr (Some ln)"
      by (auto simp: parseLine_part_001_def split: option.splits)
    from c have f: "determineListType_part_001 settings mk None = Inr (Some (type ln))"
      "indentation ln = ind" "marker ln = mk" "separator ln = Parentheses"
      "content ln = CHR '' '' # cnt"
      by (simp_all add: createResult_part_001_alone)
    from parenthesesMatch_fields[OF m] f en
    have wf: "isMarkerLine settings ln" by (auto simp: isMarkerLine_def)
    from parenthesesMatch_split[OF m] f
    have "getLineText ln = lineText" by (simp add: getLineText_def)
    with wf f show ?thesis by simp
  qed
  from render parsed show ?thesis by blast
qed

theorem C1_parse_render_own_type_witness:
  "isMarkerLine DEFAULT_SETTINGS
     \<lparr>type = Roman, indentation = ''  '', marker = ''iv'', separator = Parentheses,
      content = '' x''\<rparr>
   \<and> determineListType_part_001 DEFAULT_SETTINGS ''iv'' None = Inr (Some Roman)
   \<and> parseLine_part_001 DEFAULT_SETTINGS
        (getLineText \<lparr>type = Roman, indentation = ''  '', marker = ''iv'',
                        separator = Parentheses, content = '' x''\<rparr>) None
     = Inr (Some \<lparr>type = Roman, indentation = ''  '', marker = ''iv'', separator = Parentheses,
                   content = '' x''\<rparr>)
   \<and> parseLine_part_001 DEFAULT_SETTINGS ''b) y'' None
     = Inr (Some \<lparr>type = Alphabetical, indentation = [], marker = ''b'',
                   separator = Parenthesis, content = '' y''\<rparr>)
   \<and> getLineText \<lparr>type = Alphabetical, indentation = [], marker = ''b'',
                   separator = Parenthesis, content = '' y''\<rparr> = ''b) y''"
proof -
  let ?ln = "\<lparr>type = Roman, indentation = ''  '', marker = ''iv'', separator = Parentheses,
              content = '' x''\<rparr>"
  let ?lb = "\<lparr>type = Alphabetical, indentation = [], marker = ''b'',
              separator = Parenthesis, content = '' y''\<rparr>"
  have w: "isMarkerLine DEFAULT_SETTINGS ?ln" by code_simp
  have t: "determineListType_part_001 DEFAULT_SETTINGS ''iv'' None = Inr (Some Roman)"
    by code_simp
  have p: "parseLine_part_001 DEFAULT_SETTINGS ''b) y'' None = Inr (Some ?lb)" by code_simp
  from w t p C1_parse_render_own_type[of DEFAULT_SETTINGS ?ln]
    C1_parse_render_own_type[of DEFAULT_SETTINGS ?lb "''b) y''"]
  show ?thesis by simp
qed

subsection \<open>Indentation\<close>

lemma indentation_loop_mono: "level \<le> indentation_loop s level"
proof (induction s level rule: indentation_loop.induct)
  case (1 level)
  show ?case by simp
next
  case (2 c cs level)
  show ?case
  proof (cases "c = CHR 0x09")
    case True
    with "2.IH"(1) show ?thesis by simp
  next
    case nt: False
    show ?thesis
    proof (cases "c = CHR '' ''")
      case True
      from "2.IH"(2)[OF nt True refl] nt True show ?thesis by (simp add: Let_def)
    next
      case False
      with nt "2.IH"(3) show ?thesis by simp
    qed
  qed
qed

lemma indentation_loop_tab:
  "CHR 0x09 \<in> set s \<Longrightarrow> level < indentation_loop s level"
proof (induction s level rule: indentation_loop.induct)
  case (1 level)
  then show ?case by simp
next
  case (2 c cs level)
  show ?case
  proof (cases "c = CHR 0x09")
    case True
    have "level + 1 \<le> indentation_loop cs (level + 1)" by (rule indentation_loop_mono)
    with True show ?thesis by simp
  next
    case nt: False
    show ?thesis
    proof (cases "c = CHR '' ''")
      case True
      let ?P = "\<lambda>x. x = CHR '' ''"
      have "CHR 0x09 \<in> set (takeWhile ?P (c # cs)) \<union> set (dropWhile ?P (c # cs))"
        using "2.prems" by (simp only: set_append[symmetric] takeWhile_dropWhile_id)
      moreover have "CHR 0x09 \<notin> set (takeWhile ?P (c # cs))"
      proof
        assume "CHR 0x09 \<in> set (takeWhile ?P (c # cs))"
        then have "CHR 0x09 = CHR '' ''" by (rule set_takeWhileD[THEN conjunct2])
        then show False by simp
      qed
      ultimately have "CHR 0x09 \<in> set (dropWhile ?P (c # cs))" by blast
      from "2.IH"(2)[OF nt True refl this] nt True show ?thesis by (simp add: Let_def)
    next
      case False
      with nt "2.prems" have "CHR 0x09 \<in> set cs" by simp
      from "2.IH"(3)[OF nt False this] nt False show ?thesis by simp
    qed
  qed
qed

lemma trailing_Cons_other:
  assumes "c \<noteq> CHR '' ''"
  shows "takeWhile (\<lambda>x. x = CHR '' '') (rev (c # cs)) = takeWhile (\<lambda>x. x = CHR '' '') (rev cs)"
proof (cases "\<forall>x \<in> set (rev cs). x = CHR '' ''")
  case True
  have b: "takeWhile (\<lambda>x. x = CHR '' '') (rev cs) = rev cs"
    using True by (simp add: takeWhile_eq_all_conv)
  have "takeWhile (\<lambda>x. x = CHR '' '') (rev (c # cs))
        = takeWhile (\<lambda>x. x = CHR '' '') (rev cs @ [c])" by simp
  also have "\<dots> = rev cs @ takeWhile (\<lambda>x. x = CHR '' '') [c]"
    using True by (intro takeWhile_append2) simp
  also have "\<dots> = rev cs" using assms by simp
  finally have "takeWhile (\<lambda>x. x = CHR '' '') (rev (c # cs)) = rev cs" .
  then show ?thesis by (simp only: b)
next
  case False
  then show ?thesis by (auto simp: takeWhile_append1)
qed

lemma trailing_after_run:
  assumes "dropWhile (\<lambda>x. x = CHR '' '') s \<noteq> []"
  shows "takeWhile (\<lambda>x. x = CHR '' '') (rev s)
         = takeWhile (\<lambda>x. x = CHR '' '') (rev (dropWhile (\<lambda>x. x = CHR '' '') s))"
proof -
  let ?P = "\<lambda>x. x = CHR '' ''"
  have "hd (dropWhile ?P s) \<in> set (rev (dropWhile ?P s))" using assms by simp
  moreover have "\<not> ?P (hd (dropWhile ?P s))" using assms by (rule hd_dropWhile)
  ultimately have ex: "\<exists>x \<in> set (rev (dropWhile ?P s)). \<not> ?P x" by blast
  have "rev s = rev (dropWhile ?P s) @ rev (takeWhile ?P s)"
    by (metis rev_append takeWhile_dropWhile_id)
  then show ?thesis using ex by (auto simp: takeWhile_append1)
qed

lemma indentation_loop_trailing:
  "4 \<le> length (takeWhile (\<lambda>x. x = CHR '' '') (rev s)) \<Longrightarrow> level < indentation_loop s level"
proof (induction s level rule: indentation_loop.induct)
  case (1 level)
  then show ?case by simp
next
  case (2 c cs level)
  let ?P = "\<lambda>x. x = CHR '' ''"
  show ?case
  proof (cases "c = CHR 0x09")
    case True
    have "level + 1 \<le> indentation_loop cs (level + 1)" by (rule indentation_loop_mono)
    with True show ?thesis by simp
  next
    case nt: False
    show ?thesis
    proof (cases "c = CHR '' ''")
      case sp: True
      let ?run = "takeWhile ?P (c # cs)" and ?rest = "dropWhile ?P (c # cs)"
      have unfold: "indentation_loop (c # cs) level
                    = indentation_loop ?rest (level + length ?run div 4)"
        using nt sp by (simp add: Let_def)
      show ?thesis
      proof (cases "?rest = []")
        case True
        then have "?run = c # cs" by (metis append_Nil2 takeWhile_dropWhile_id)
        moreover have "length (takeWhile ?P (rev (c # cs))) \<le> length (rev (c # cs))"
          by (rule length_takeWhile_le)
        ultimately have "4 \<le> length ?run" using "2.prems" by simp
        then have "1 \<le> length ?run div 4" by simp
        with unfold True show ?thesis by simp
      next
        case False
        from trailing_after_run[OF False] "2.prems"
        have "4 \<le> length (takeWhile ?P (rev ?rest))" by simp
        from "2.IH"(2)[OF nt sp refl this] unfold show ?thesis by simp
      qed
    next
      case False
      from trailing_Cons_other[OF False, of cs] "2.prems"
      have "4 \<le> length (takeWhile ?P (rev cs))" by simp
      from "2.IH"(3)[OF nt False this] nt False show ?thesis by simp
    qed
  qed
qed

text \<open>
  Claim C9 says that decreasing the indentation of a line at level 0 is always rejected
  with an error. At level 0 \<open>decreaseIndentationLevel\<close> throws only for the empty
  indentation; for every other indentation of level 0 (one to three spaces, or other white
  space) it returns without an error and leaves the line as it was.
\<close>

theorem C9_decrease_at_level_zero:
  assumes "getIndentationLevel (indentation ln) = 0"
  shows "decreaseIndentationLevel ln
         = (if indentation ln = [] then Inl NoIndentationToDecrease else Inr ln)"
proof (cases "indentation ln = []")
  case True
  then show ?thesis by (simp add: decreaseIndentationLevel_def)
next
  case False
  let ?s = "indentation ln"
  let ?t = "length (takeWhile (\<lambda>x. x = CHR '' '') (rev ?s))"
  have notab: "CHR 0x09 \<notin> set ?s"
    using assms indentation_loop_tab[of ?s 0] by (auto simp: getIndentationLevel_def)
  have few: "\<not> 4 \<le> ?t"
    using assms indentation_loop_trailing[of ?s 0] by (auto simp: getIndentationLevel_def)
  have last_take: "take k ?s \<noteq> [] \<Longrightarrow> last (take k ?s) \<noteq> CHR 0x09" for k
  proof -
    assume "take k ?s \<noteq> []"
    then have "last (take k ?s) \<in> set (take k ?s)" by (rule last_in_set)
    then have "last (take k ?s) \<in> set ?s" by (rule in_set_takeD)
    with notab show ?thesis by metis
  qed
  have last_s: "last ?s \<noteq> CHR 0x09" using False notab last_in_set by metis
  show ?thesis
    using False few last_take last_s
    by (auto simp: decreaseIndentationLevel_def Let_def)
qed

theorem C9_decrease_at_level_zero_witness:
  "parseLine DEFAULT_SETTINGS ''  a. x'' None
     = Some \<lparr>type = Alphabetical, indentation = ''  '', marker = ''a'', separator = Dot,
              content = ''x''\<rparr>
   \<and> getIndentationLevel ''  '' = 0
   \<and> decreaseIndentationLevel \<lparr>type = Alphabetical, indentation = ''  '', marker = ''a'',
                               separator = Dot, content = ''x''\<rparr>
     = Inr \<lparr>type = Alphabetical, indentation = ''  '', marker = ''a'', separator = Dot,
             content = ''x''\<rparr>"
proof -
  have a: "parseLine DEFAULT_SETTINGS ''  a. x'' None
     = Some \<lparr>type = Alphabetical, indentation = ''  '', marker = ''a'', separator = Dot,
              content = ''x''\<rparr>"
    by code_simp
  have b: "getIndentationLevel ''  '' = 0" by code_simp
  from C9_decrease_at_level_zero[of "\<lparr>type = Alphabetical, indentation = ''  '',
      marker = ''a'', separator = Dot, content = ''x''\<rparr>"] a b
  show ?thesis by simp
qed

subsection \<open>Resequencing\<close>










end
